theory Spec2Isabelle
  imports Main "HOL-Library.AList"
begin

section \<open>The image dependency tree of CI-scripts/image\_tree.py\<close>

text \<open>
  The module keeps \<open>Image\<close> objects that refer to one another (\<open>parent\<close>,
  \<open>children\<close>) and to which the tree's dictionary \<open>images\<close> and its field
  \<open>root_image\<close> refer. Objects are compared by identity (\<open>is\<close>, \<open>in\<close>,
  \<open>set\<close>), so the model keeps an explicit store: a reference is an address, the
  store maps addresses to objects, and allocation takes the next free address.
  Exceptions are values of the type \<open>error\<close>; every stateful function returns the
  store it leaves behind together with its result or its exception.
  Python's recursion limit is the parameter \<open>k\<close> of the recursive functions: the number
  of nested calls still allowed. Characters are the code points below 256.
\<close>

subsection \<open>Strings\<close>

fun startswith :: "string \<Rightarrow> string \<Rightarrow> bool" where
  "startswith s [] = True"
| "startswith [] (p # ps) = False"
| "startswith (c # cs) (p # ps) = (c = p \<and> startswith cs ps)"

text \<open>\<open>s.replace(old, new)\<close> for a non-empty \<open>old\<close>: every occurrence, left to right,
  without overlap.\<close>

function replace :: "string \<Rightarrow> string \<Rightarrow> string \<Rightarrow> string" where
  "replace old new [] = []"
| "replace old new (c # cs) =
     (if old \<noteq> [] \<and> startswith (c # cs) old
      then new @ replace old new (drop (length old) (c # cs))
      else c # replace old new cs)"
  by pat_completeness auto
termination
  by (relation "measure (\<lambda>(old, new, s). length s)") (auto simp: neq_Nil_conv)

definition lstrip :: "char \<Rightarrow> string \<Rightarrow> string" where
  "lstrip ch s = dropWhile (\<lambda>c. c = ch) s"

text \<open>\<open>s.split(sep)\<close> for a one-character separator: the pieces between the separators,
  one more than there are separators.\<close>

fun split :: "char \<Rightarrow> string \<Rightarrow> string list" where
  "split sep [] = [[]]"
| "split sep (c # cs) =
     (if c = sep then [] # split sep cs
      else (case split sep cs of
              [] \<Rightarrow> [[c]]
            | p # ps \<Rightarrow> (c # p) # ps))"

text \<open>\<open>str.isdigit\<close> on one character below code point 256: the decimal digits and the
  superscripts two, three and one.\<close>

definition isdigit :: "char \<Rightarrow> bool" where
  "isdigit c =
     (let n = (of_char c :: nat)
      in (48 \<le> n \<and> n \<le> 57) \<or> n = 178 \<or> n = 179 \<or> n = 185)"

fun join :: "string \<Rightarrow> string list \<Rightarrow> string" where
  "join sep [] = []"
| "join sep [x] = x"
| "join sep (x # y # ys) = x @ sep @ join sep (y # ys)"

subsection \<open>Objects, the tree and the directory\<close>

type_synonym ref = nat

text \<open>The field \<open>tree\<close> of an image is left out: there is one tree, the state itself.
  \<open>dirpath\<close> is the path below the root directory, which is the image's name.\<close>

record Image =
  name :: string
  parent :: "ref option"
  children :: "ref list"
  dirpath :: "string option"
  python_compat :: bool

text \<open>\<open>images\<close> is a Python dictionary: an association list in insertion order with
  one entry for each key.\<close>

record ImageTree =
  heap :: "ref \<Rightarrow> Image"
  nxt :: ref
  images :: "(string \<times> ref) list"
  root_image :: "ref option"
  python_version :: "string option"

text \<open>What \<open>root_dir.joinpath(name)\<close> is on disk: not a directory, a directory whose
  \<open>Dockerfile\<close> cannot be read, or a directory with the lines of its \<open>Dockerfile\<close>.\<close>

datatype dirent = NotADir | Dir "string list option"

type_synonym root_dir = "string \<Rightarrow> dirent"

datatype error =
    StopIteration
  | FileNotFoundError
  | AttributeError
  | IndexError
  | RecursionError
  | ValueError string

type_synonym 'a result = "(error + 'a) \<times> ImageTree"

definition is_dir :: "root_dir \<Rightarrow> string \<Rightarrow> bool" where
  "is_dir fs d = (fs d \<noteq> NotADir)"

definition read_dockerfile :: "root_dir \<Rightarrow> string \<Rightarrow> error + string list" where
  "read_dockerfile fs d =
     (case fs d of
        Dir (Some ls) \<Rightarrow> Inr ls
      | _ \<Rightarrow> Inl FileNotFoundError)"

definition Image_init :: "string \<Rightarrow> Image" where
  "Image_init image_name =
     \<lparr>name = image_name, parent = None, children = [],
      dirpath = Some image_name, python_compat = True\<rparr>"

definition new_Image :: "ImageTree \<Rightarrow> string \<Rightarrow> ref \<times> ImageTree" where
  "new_Image T image_name =
     (nxt T, T\<lparr>heap := (heap T)(nxt T := Image_init image_name), nxt := Suc (nxt T)\<rparr>)"

definition upd :: "ImageTree \<Rightarrow> ref \<Rightarrow> (Image \<Rightarrow> Image) \<Rightarrow> ImageTree" where
  "upd T r f = T\<lparr>heap := (heap T)(r := f (heap T r))\<rparr>"

subsection \<open>Image: parsing the parent reference\<close>

definition value_from_arg :: "string \<Rightarrow> string list \<Rightarrow> error + string" where
  "value_from_arg var dockerfile =
     (let var_name = lstrip (CHR ''$'') var;
          declaration = ''ARG '' @ var_name @ ''=''
      in case find (\<lambda>l. startswith l declaration) dockerfile of
           None \<Rightarrow> Inl StopIteration
         | Some arg_line \<Rightarrow> Inr (replace declaration [] arg_line))"

text \<open>The unpacking \<open>parent_image, parent_tag = image_tag.split(':')\<close> raises
  \<open>ValueError\<close> unless there are exactly two pieces, and the handler takes the whole
  string as the image with no tag.\<close>

definition split_image_tag :: "string \<Rightarrow> string \<times> string option" where
  "split_image_tag image_tag =
     (case split (CHR '':'') image_tag of
        [parent_image, parent_tag] \<Rightarrow> (parent_image, Some parent_tag)
      | _ \<Rightarrow> (image_tag, None))"

definition parent_reference :: "string list \<Rightarrow> error + string" where
  "parent_reference dockerfile =
     (case find (\<lambda>l. startswith l ''FROM'') dockerfile of
        None \<Rightarrow> Inl StopIteration
      | Some from_line \<Rightarrow>
          (let parent_info = replace ''FROM '' [] from_line
           in case (if startswith parent_info ''$''
                    then value_from_arg parent_info dockerfile
                    else Inr parent_info) of
                Inl e \<Rightarrow> Inl e
              | Inr parent_info' \<Rightarrow> Inr (replace ''contextlab/'' [] parent_info')))"

definition parse_parent_from_dockerfile :: "root_dir \<Rightarrow> ImageTree \<Rightarrow> ref \<Rightarrow> string result" where
  "parse_parent_from_dockerfile fs T self =
     (case dirpath (heap T self) of
        None \<Rightarrow> (Inl AttributeError, T)
      | Some d \<Rightarrow>
          (case read_dockerfile fs d of
             Inl e \<Rightarrow> (Inl e, T)
           | Inr dockerfile \<Rightarrow>
               (case parent_reference dockerfile of
                  Inl e \<Rightarrow> (Inl e, T)
                | Inr image_tag \<Rightarrow>
                    (case split_image_tag image_tag of
                       (parent_image, None) \<Rightarrow> (Inr parent_image, T)
                     | (parent_image, Some parent_tag) \<Rightarrow>
                         (case parent_tag of
                            [] \<Rightarrow> (Inl IndexError, T)
                          | c # _ \<Rightarrow>
                              if isdigit c \<and> Some parent_tag \<noteq> python_version T
                              then (Inr parent_image,
                                    upd T self (\<lambda>i. i\<lparr>python_compat := False\<rparr>))
                              else (Inr parent_image, T))))))"

subsection \<open>Image: linking\<close>

definition add_parent :: "ImageTree \<Rightarrow> ref \<Rightarrow> ref \<Rightarrow> ImageTree" where
  "add_parent T self p = upd T self (\<lambda>i. i\<lparr>parent := Some p\<rparr>)"

definition add_child :: "ImageTree \<Rightarrow> ref \<Rightarrow> ref \<Rightarrow> ImageTree" where
  "add_child T self child =
     (if child \<notin> set (children (heap T self))
      then upd T self (\<lambda>i. i\<lparr>children := children i @ [child]\<rparr>)
      else T)"

definition not_found :: "string \<Rightarrow> (string \<times> ref) list \<Rightarrow> string" where
  "not_found image_name d =
     ''No Image named '' @ image_name @ '' in:'' @ join '', '' (map fst d)"

subsection \<open>ImageTree: lookup, creation and linking\<close>

fun get_image :: "nat \<Rightarrow> root_dir \<Rightarrow> ImageTree \<Rightarrow> string \<Rightarrow> bool \<Rightarrow> ref result"
and create_image :: "nat \<Rightarrow> root_dir \<Rightarrow> ImageTree \<Rightarrow> string \<Rightarrow> ref result"
and add_to_tree :: "nat \<Rightarrow> root_dir \<Rightarrow> ImageTree \<Rightarrow> ref \<Rightarrow> unit result"
and link_images :: "nat \<Rightarrow> root_dir \<Rightarrow> ImageTree \<Rightarrow> string + ref \<Rightarrow> string + ref \<Rightarrow> unit result"
where
  "get_image k fs T image_name create_new =
     (case map_of (images T) image_name of
        Some r \<Rightarrow> (Inr r, T)
      | None \<Rightarrow>
          if create_new then create_image k fs T image_name
          else (Inl (ValueError (not_found image_name (images T))), T))"
| "create_image 0 fs T image_name = (Inl RecursionError, T)"
| "create_image (Suc k) fs T image_name =
     (case new_Image T image_name of
        (img, T1) \<Rightarrow>
          (case add_to_tree k fs T1 img of
             (Inl e, T2) \<Rightarrow> (Inl e, T2)
           | (Inr _, T2) \<Rightarrow>
               (Inr img, T2\<lparr>images := AList.update image_name img (images T2)\<rparr>)))"
| "add_to_tree k fs T self =
     (case dirpath (heap T self) of
        None \<Rightarrow> (Inl AttributeError, T)
      | Some d \<Rightarrow>
          if is_dir fs d then
            (case parse_parent_from_dockerfile fs T self of
               (Inl e, T1) \<Rightarrow> (Inl e, T1)
             | (Inr parent_image, T1) \<Rightarrow>
                 link_images k fs T1 (Inl parent_image) (Inr self))
          else (Inr (), (upd T self (\<lambda>i. i\<lparr>dirpath := None\<rparr>))\<lparr>root_image := Some self\<rparr>))"
| "link_images k fs T parent' child' =
     (case (case parent' of
              Inl n \<Rightarrow> get_image k fs T n True
            | Inr p \<Rightarrow> (Inr p, T)) of
        (Inl e, T1) \<Rightarrow> (Inl e, T1)
      | (Inr p, T1) \<Rightarrow>
          (case (case child' of
                   Inl n \<Rightarrow> get_image k fs T1 n True
                 | Inr c \<Rightarrow> (Inr c, T1)) of
             (Inl e, T2) \<Rightarrow> (Inl e, T2)
           | (Inr c, T2) \<Rightarrow>
               (let T3 = (if \<not> python_compat (heap T2 p)
                          then upd T2 c (\<lambda>i. i\<lparr>python_compat := False\<rparr>)
                          else T2)
                in (Inr (), add_parent (add_child T3 p c) c p))))"

fun create_tree :: "nat \<Rightarrow> root_dir \<Rightarrow> ImageTree \<Rightarrow> string list \<Rightarrow> unit result" where
  "create_tree k fs T [] = (Inr (), T)"
| "create_tree k fs T (image_name # rest) =
     (case get_image k fs T image_name True of
        (Inl e, T1) \<Rightarrow> (Inl e, T1)
      | (Inr img, T1) \<Rightarrow>
          (case add_to_tree k fs T1 img of
             (Inl e, T2) \<Rightarrow> (Inl e, T2)
           | (Inr _, T2) \<Rightarrow> create_tree k fs T2 rest))"

definition ImageTree_empty :: "string option \<Rightarrow> ImageTree" where
  "ImageTree_empty version =
     \<lparr>heap = (\<lambda>_. Image_init []), nxt = 0, images = [], root_image = None,
      python_version = version\<rparr>"

text \<open>The constructor: \<open>dockerfile_names\<close> is the list of the names of the directories
  in which \<open>rglob\<close> found a \<open>Dockerfile\<close>, in the order it found them.\<close>

definition ImageTree_init :: "nat \<Rightarrow> root_dir \<Rightarrow> string option \<Rightarrow> string list \<Rightarrow> unit result" where
  "ImageTree_init k fs version dockerfile_names =
     create_tree k fs (ImageTree_empty version) dockerfile_names"

subsection \<open>Image: ancestors and descendants\<close>

text \<open>\<open>self.parent is not self.tree.root_image\<close> compares two references, each of which
  may be \<open>None\<close>; \<open>self.parent.ancestors\<close> on the parent \<open>None\<close> raises
  \<open>AttributeError\<close>.\<close>

fun ancestors :: "nat \<Rightarrow> ImageTree \<Rightarrow> ref \<Rightarrow> error + ref list" where
  "ancestors 0 T self = Inl RecursionError"
| "ancestors (Suc k) T self =
     (if parent (heap T self) \<noteq> root_image T then
        (case parent (heap T self) of
           None \<Rightarrow> Inl AttributeError
         | Some p \<Rightarrow>
             (case ancestors k T p of
                Inl e \<Rightarrow> Inl e
              | Inr ancs \<Rightarrow> Inr (ancs @ [self])))
      else Inr [self])"

fun descendants :: "nat \<Rightarrow> ImageTree \<Rightarrow> ref \<Rightarrow> error + ref list"
and extend_descendants :: "nat \<Rightarrow> ImageTree \<Rightarrow> ref list \<Rightarrow> error + ref list"
where
  "descendants 0 T self = Inl RecursionError"
| "descendants (Suc k) T self =
     (case extend_descendants k T (children (heap T self)) of
        Inl e \<Rightarrow> Inl e
      | Inr descs \<Rightarrow> Inr (self # descs))"
| "extend_descendants k T [] = Inr []"
| "extend_descendants k T (child # rest) =
     (case descendants k T child of
        Inl e \<Rightarrow> Inl e
      | Inr ds \<Rightarrow>
          (case extend_descendants k T rest of
             Inl e \<Rightarrow> Inl e
           | Inr descs \<Rightarrow> Inr (ds @ descs)))"

subsection \<open>ImageTree: the rebuild query\<close>

fun dependent_imgs :: "nat \<Rightarrow> root_dir \<Rightarrow> ImageTree \<Rightarrow> string list \<Rightarrow> ref list result" where
  "dependent_imgs k fs T [] = (Inr [], T)"
| "dependent_imgs k fs T (img_name # rest) =
     (case get_image k fs T img_name False of
        (Inl e, T1) \<Rightarrow> (Inl e, T1)
      | (Inr img, T1) \<Rightarrow>
          (case descendants k T1 img of
             Inl e \<Rightarrow> (Inl e, T1)
           | Inr ds \<Rightarrow>
               (case dependent_imgs k fs T1 rest of
                  (Inl e, T2) \<Rightarrow> (Inl e, T2)
                | (Inr others, T2) \<Rightarrow> (Inr (ds @ others), T2))))"

text \<open>\<open>sorted\<close> computes the key of every element, in order, before it sorts.\<close>

fun sort_keys :: "nat \<Rightarrow> ImageTree \<Rightarrow> ref list \<Rightarrow> error + nat list" where
  "sort_keys k T [] = Inr []"
| "sort_keys k T (img # rest) =
     (case ancestors k T img of
        Inl e \<Rightarrow> Inl e
      | Inr ancs \<Rightarrow>
          (case sort_keys k T rest of
             Inl e \<Rightarrow> Inl e
           | Inr ks \<Rightarrow> Inr (length ancs # ks)))"

text \<open>\<open>list(set(dependent_imgs))\<close> lists each object once, in the order of the hash
  table, which the program does not control: the order is the parameter
  \<open>list_of_set\<close>. \<open>sorted\<close> is stable, as \<open>sort_key\<close> is.\<close>

definition determine_rebuilds ::
  "(ref list \<Rightarrow> ref list) \<Rightarrow> nat \<Rightarrow> root_dir \<Rightarrow> ImageTree \<Rightarrow> string list \<Rightarrow> string list result" where
  "determine_rebuilds list_of_set k fs T edited_img_names =
     (case dependent_imgs k fs T edited_img_names of
        (Inl e, T1) \<Rightarrow> (Inl e, T1)
      | (Inr deps, T1) \<Rightarrow>
          (let unique_dependents = list_of_set deps
           in case sort_keys k T1 unique_dependents of
                Inl e \<Rightarrow> (Inl e, T1)
              | Inr ks \<Rightarrow>
                  (let sorted_dependents = map fst (sort_key snd (zip unique_dependents ks));
                       to_rebuild = map (\<lambda>img. name (heap T1 img))
                                      (filter (\<lambda>img. python_compat (heap T1 img)) sorted_dependents)
                   in (Inr to_rebuild, T1))))"

declare get_image.simps [simp del] create_image.simps [simp del]
  add_to_tree.simps [simp del] link_images.simps [simp del]

section \<open>Notions used in the statements and proofs\<close>

text \<open>The two halves of \<open>link_images\<close>: an argument that is a name is looked up or
  created, an argument that is an image is taken as it is; then the flag is propagated and
  the edge is set in both directions.\<close>

definition resolve :: "nat \<Rightarrow> root_dir \<Rightarrow> ImageTree \<Rightarrow> string + ref \<Rightarrow> ref result" where
  "resolve k fs T x = (case x of Inl n \<Rightarrow> get_image k fs T n True | Inr r \<Rightarrow> (Inr r, T))"

definition link :: "ImageTree \<Rightarrow> ref \<Rightarrow> ref \<Rightarrow> ImageTree" where
  "link T p c =
     add_parent (add_child (if \<not> python_compat (heap T p)
                            then upd T c (\<lambda>i. i\<lparr>python_compat := False\<rparr>) else T) p c) c p"

text \<open>What every operation keeps: the objects that exist go on existing, the version token
  stays, and a flag that is false stays false.\<close>

definition compat_mono :: "ImageTree \<Rightarrow> ImageTree \<Rightarrow> bool" where
  "compat_mono T T' \<longleftrightarrow>
     nxt T \<le> nxt T' \<and> python_version T' = python_version T \<and>
     (\<forall>r < nxt T. \<not> python_compat (heap T r) \<longrightarrow> \<not> python_compat (heap T' r))"

text \<open>A definition file the parse cannot read a parent from: no line starts with
  \<open>FROM\<close>, or the reference starts with \<open>$\<close> and no line starts with \<open>ARG name=\<close>.\<close>

definition malformed :: "string list \<Rightarrow> bool" where
  "malformed dockerfile \<longleftrightarrow>
     (case find (\<lambda>l. startswith l ''FROM'') dockerfile of
        None \<Rightarrow> True
      | Some from_line \<Rightarrow>
          startswith (replace ''FROM '' [] from_line) ''$'' \<and>
          find (\<lambda>l. startswith l
                  (''ARG '' @ lstrip (CHR ''$'') (replace ''FROM '' [] from_line) @ ''=''))
            dockerfile = None)"

text \<open>The edges of the tree, downwards.\<close>

definition child_rel :: "ImageTree \<Rightarrow> (ref \<times> ref) set" where
  "child_rel T = {(x, y). y \<in> set (children (heap T x))}"

abbreviation lookup :: "ImageTree \<Rightarrow> string \<Rightarrow> ref option" where
  "lookup T \<equiv> map_of (images T)"

text \<open>\<open>has_depth T r d\<close>: following \<open>parent\<close> from \<open>r\<close> reaches an image without
  parent after exactly \<open>d\<close> steps.\<close>

fun has_depth :: "ImageTree \<Rightarrow> ref \<Rightarrow> nat \<Rightarrow> bool" where
  "has_depth T r 0 = (parent (heap T r) = None)"
| "has_depth T r (Suc d) =
     (case parent (heap T r) of None \<Rightarrow> False | Some p \<Rightarrow> has_depth T p d)"

text \<open>The edges of the tree, upwards.\<close>

definition parent_rel :: "ImageTree \<Rightarrow> (ref \<times> ref) set" where
  "parent_rel T = {(x, y). parent (heap T x) = Some y}"

text \<open>What the parse of the definition file of the directory \<open>n\<close> yields, as a function
  of the files alone: the error, or the parent name and whether the tag pins another
  version.\<close>

definition decl :: "root_dir \<Rightarrow> string option \<Rightarrow> string \<Rightarrow> error + string \<times> bool" where
  "decl fs version n =
     (case read_dockerfile fs n of
        Inl e \<Rightarrow> Inl e
      | Inr ls \<Rightarrow>
          (case parent_reference ls of
             Inl e \<Rightarrow> Inl e
           | Inr ref \<Rightarrow>
               (case split_image_tag ref of
                  (img, None) \<Rightarrow> Inr (img, False)
                | (img, Some []) \<Rightarrow> Inl IndexError
                | (img, Some (c # cs)) \<Rightarrow> Inr (img, isdigit c \<and> Some (c # cs) \<noteq> version))))"

text \<open>The invariant of the construction. An image registered under the name \<open>n\<close>
  exists and has this name; its parent chain ends, after fewer steps than the tree has
  names; its children are registered and point back to it; when \<open>n\<close> is a directory,
  its file parses, its parent is the image registered under the parsed name and lists it
  as a child, and it is incompatible when its tag pins another version or its parent is
  incompatible; when \<open>n\<close> is no directory, it is an external image without parent.\<close>

definition node_ok :: "root_dir \<Rightarrow> ImageTree \<Rightarrow> string \<Rightarrow> ref \<Rightarrow> bool" where
  "node_ok fs T n r \<longleftrightarrow>
     r < nxt T \<and> name (heap T r) = n \<and>
     (\<exists>d < length (images T). has_depth T r d) \<and>
     (\<forall>c \<in> set (children (heap T r)).
        (\<exists>m. lookup T m = Some c) \<and> parent (heap T c) = Some r) \<and>
     (if is_dir fs n then
        dirpath (heap T r) = Some n \<and>
        (\<exists>p rp pin. decl fs (python_version T) n = Inr (p, pin) \<and> lookup T p = Some rp \<and>
            parent (heap T r) = Some rp \<and> r \<in> set (children (heap T rp)) \<and>
            (pin \<longrightarrow> \<not> python_compat (heap T r)) \<and>
            (\<not> python_compat (heap T rp) \<longrightarrow> \<not> python_compat (heap T r)))
      else dirpath (heap T r) = None \<and> parent (heap T r) = None)"

definition root_ok :: "ImageTree \<Rightarrow> bool" where
  "root_ok T \<longleftrightarrow>
     (\<forall>r. root_image T = Some r \<longrightarrow>
        r < nxt T \<and> parent (heap T r) = None \<and> dirpath (heap T r) = None)"

definition Good :: "root_dir \<Rightarrow> ImageTree \<Rightarrow> bool" where
  "Good fs T \<longleftrightarrow> (\<forall>n r. lookup T n = Some r \<longrightarrow> node_ok fs T n r) \<and> root_ok T"

text \<open>The assignment \<open>self.images[image_name] = image\<close>.\<close>

definition register :: "ImageTree \<Rightarrow> string \<Rightarrow> ref \<Rightarrow> ImageTree" where
  "register T n r = T\<lparr>images := AList.update n r (images T)\<rparr>"

text \<open>An image that \<open>create_image\<close> has allocated and not yet registered: nothing
  refers to it, and only its flag may have changed.\<close>

definition inflight :: "ImageTree \<Rightarrow> string \<Rightarrow> ref \<Rightarrow> bool" where
  "inflight T n c \<longleftrightarrow>
     c < nxt T \<and> lookup T n = None \<and> name (heap T c) = n \<and> parent (heap T c) = None \<and>
     children (heap T c) = [] \<and> dirpath (heap T c) = Some n"

text \<open>What a successful get-or-create of the name \<open>n\<close> guarantees: the invariant, the
  name registered, the earlier names kept, unregistered objects untouched, and every new
  name a fresh object on the parent chain of the created image.\<close>

definition created :: "root_dir \<Rightarrow> ImageTree \<Rightarrow> string \<Rightarrow> ref \<Rightarrow> ImageTree \<Rightarrow> bool" where
  "created fs T n r T' \<longleftrightarrow>
     Good fs T' \<and> lookup T' n = Some r \<and>
     (\<forall>m x. lookup T m = Some x \<longrightarrow> lookup T' m = Some x) \<and>
     nxt T \<le> nxt T' \<and> python_version T' = python_version T \<and>
     (\<forall>x < nxt T. (\<forall>m. lookup T m \<noteq> Some x) \<longrightarrow> heap T' x = heap T x) \<and>
     (\<forall>m y. lookup T m = None \<longrightarrow> lookup T' m = Some y \<longrightarrow>
        nxt T \<le> y \<and> (r, y) \<in> (parent_rel T')\<^sup>*)"

text \<open>The parent relation the files declare, by name.\<close>

definition declared :: "root_dir \<Rightarrow> (string \<times> string) set" where
  "declared fs = {(n, p). is_dir fs n \<and> (\<exists>pin. decl fs None n = Inr (p, pin))}"

text \<open>The states that registrations reach from the empty tree: a lookup with or without
  creation of any name, and \<open>add_to_tree\<close> on an image of the tree, each with any number
  of calls left and whether it returns or raises. The construction loop is a sequence of
  these steps.\<close>

inductive reachable :: "root_dir \<Rightarrow> string option \<Rightarrow> ImageTree \<Rightarrow> bool" for fs ver where
  init: "reachable fs ver (ImageTree_empty ver)"
| lookup_or_create:
    "reachable fs ver T \<Longrightarrow> get_image k fs T n b = (res, T') \<Longrightarrow> reachable fs ver T'"
| register:
    "reachable fs ver T \<Longrightarrow> map_of (images T) n = Some r \<Longrightarrow>
     add_to_tree k fs T r = (res, T') \<Longrightarrow> reachable fs ver T'"

text \<open>The shape of a tree by names: the name of the parent of a name, and the names of
  its children.\<close>

definition parent_of :: "ImageTree \<Rightarrow> string \<Rightarrow> string option" where
  "parent_of T n =
     (case map_of (images T) n of
        None \<Rightarrow> None
      | Some r \<Rightarrow> map_option (\<lambda>p. name (heap T p)) (parent (heap T r)))"

definition children_of :: "ImageTree \<Rightarrow> string \<Rightarrow> string set" where
  "children_of T n =
     (case map_of (images T) n of
        None \<Rightarrow> {}
      | Some r \<Rightarrow> (\<lambda>c. name (heap T c)) ` set (children (heap T r)))"

text \<open>The sort key of \<open>determine_rebuilds\<close>, \<open>len(img.ancestors)\<close>, where it is
  defined.\<close>

definition ancestors_length :: "nat \<Rightarrow> ImageTree \<Rightarrow> ref \<Rightarrow> nat" where
  "ancestors_length k T x = (case ancestors k T x of Inr ancs \<Rightarrow> length ancs | Inl _ \<Rightarrow> 0)"

text \<open>An example directory: \<open>leaf\<close> is built from \<open>mid\<close>, \<open>mid\<close> from the external image
  \<open>base\<close> at the pinned tag \<open>3.8\<close>, and the file of \<open>bad\<close> has no \<open>FROM\<close> line. The
  trees constructed from it: \<open>T_ex\<close> when \<open>leaf\<close> is found first, \<open>T_ex'\<close> when \<open>mid\<close> is
  found first.\<close>

definition fs_ex :: root_dir where
  "fs_ex n =
     (if n = ''mid'' then Dir (Some [''FROM contextlab/base:3.8''])
      else if n = ''leaf'' then Dir (Some [''FROM contextlab/mid''])
      else if n = ''bad'' then Dir (Some [''RUN make''])
      else NotADir)"

definition T_ex :: "string option \<Rightarrow> bool \<Rightarrow> ImageTree" where
  "T_ex ver flag =
     \<lparr>heap = (\<lambda>_. Image_init [])
        (0 := \<lparr>name = ''leaf'', parent = Some 1, children = [], dirpath = Some ''leaf'',
               python_compat = flag\<rparr>,
         1 := \<lparr>name = ''mid'', parent = Some 2, children = [0], dirpath = Some ''mid'',
               python_compat = flag\<rparr>,
         2 := \<lparr>name = ''base'', parent = None, children = [1], dirpath = None,
               python_compat = True\<rparr>),
      nxt = 3, images = [(''base'', 2), (''mid'', 1), (''leaf'', 0)], root_image = Some 2,
      python_version = ver\<rparr>"

definition T_ex' :: ImageTree where
  "T_ex' =
     \<lparr>heap = (\<lambda>_. Image_init [])
        (0 := \<lparr>name = ''mid'', parent = Some 1, children = [2], dirpath = Some ''mid'',
               python_compat = True\<rparr>,
         1 := \<lparr>name = ''base'', parent = None, children = [0], dirpath = None,
               python_compat = True\<rparr>,
         2 := \<lparr>name = ''leaf'', parent = Some 0, children = [], dirpath = Some ''leaf'',
               python_compat = True\<rparr>),
      nxt = 3, images = [(''base'', 1), (''mid'', 0), (''leaf'', 2)], root_image = Some 1,
      python_version = Some ''3.8''\<rparr>"

text \<open>A directory with two external bases: \<open>a\<close> is built from \<open>x\<close> and \<open>b\<close> from
  \<open>y\<close>; and the tree constructed from it when \<open>a\<close> is found first, where the root
  image is \<open>y\<close>, the base that was created last.\<close>

definition fs_two :: root_dir where
  "fs_two n =
     (if n = ''a'' then Dir (Some [''FROM x''])
      else if n = ''b'' then Dir (Some [''FROM y''])
      else NotADir)"

definition T_two :: ImageTree where
  "T_two =
     \<lparr>heap = (\<lambda>_. Image_init [])
        (0 := \<lparr>name = ''a'', parent = Some 1, children = [], dirpath = Some ''a'',
               python_compat = True\<rparr>,
         1 := \<lparr>name = ''x'', parent = None, children = [0], dirpath = None,
               python_compat = True\<rparr>,
         2 := \<lparr>name = ''b'', parent = Some 3, children = [], dirpath = Some ''b'',
               python_compat = True\<rparr>,
         3 := \<lparr>name = ''y'', parent = None, children = [2], dirpath = None,
               python_compat = True\<rparr>),
      nxt = 4, images = [(''x'', 1), (''a'', 0), (''y'', 3), (''b'', 2)], root_image = Some 3,
      python_version = None\<rparr>"

text \<open>The tree after \<open>link_images('b', 'c')\<close> and \<open>link_images('mid', 'b')\<close> on the empty
  tree with the version token \<open>3.9\<close>.\<close>

definition T_linked :: ImageTree where
  "T_linked =
     snd (link_images 2 fs_ex
            (snd (link_images 2 fs_ex (ImageTree_empty (Some ''3.9'')) (Inl ''b'') (Inl ''c'')))
            (Inl ''mid'') (Inl ''b''))"

section \<open>Properties\<close>

subsection \<open>Case analysis of the operations\<close>

lemma get_image_cases:
  assumes "get_image k fs T n b = (res, T')"
  obtains (found) r where "map_of (images T) n = Some r" "res = Inr r" "T' = T"
  | (create) "map_of (images T) n = None" "b" "create_image k fs T n = (res, T')"
  | (missing) "map_of (images T) n = None" "\<not> b"
      "res = Inl (ValueError (not_found n (images T)))" "T' = T"
proof (cases "map_of (images T) n")
  case None
  show ?thesis
  proof (cases b)
    case True
    with None assms show ?thesis by (intro create) (auto simp: get_image.simps)
  next
    case False
    with None assms show ?thesis by (intro missing) (auto simp: get_image.simps)
  qed
next
  case (Some r)
  with assms show ?thesis by (intro found [of r]) (auto simp: get_image.simps)
qed

lemma create_image_cases:
  assumes "create_image (Suc k) fs T n = (res, T')"
  obtains (failed) e where
      "add_to_tree k fs (snd (new_Image T n)) (nxt T) = (Inl e, T')" "res = Inl e"
  | (created) T2 where
      "add_to_tree k fs (snd (new_Image T n)) (nxt T) = (Inr (), T2)" "res = Inr (nxt T)"
      "T' = T2\<lparr>images := AList.update n (nxt T) (images T2)\<rparr>"
  using assms
  by (auto simp: create_image.simps new_Image_def split: prod.splits sum.splits)

lemma add_to_tree_cases:
  assumes "add_to_tree k fs T x = (res, T')"
  obtains (nopath) "dirpath (heap T x) = None" "res = Inl AttributeError" "T' = T"
  | (root) d where "dirpath (heap T x) = Some d" "\<not> is_dir fs d" "res = Inr ()"
      "T' = (upd T x (\<lambda>i. i\<lparr>dirpath := None\<rparr>))\<lparr>root_image := Some x\<rparr>"
  | (unparsed) d e where "dirpath (heap T x) = Some d" "is_dir fs d"
      "parse_parent_from_dockerfile fs T x = (Inl e, T')" "res = Inl e"
  | (linked) d p T1 where "dirpath (heap T x) = Some d" "is_dir fs d"
      "parse_parent_from_dockerfile fs T x = (Inr p, T1)"
      "link_images k fs T1 (Inl p) (Inr x) = (res, T')"
  using assms
  by (auto simp: add_to_tree.simps split: option.splits if_splits prod.splits sum.splits)

lemma link_images_cases:
  assumes "link_images k fs T p c = (res, T')"
  obtains (noparent) e where "resolve k fs T p = (Inl e, T')" "res = Inl e"
  | (nochild) pr T1 e where "resolve k fs T p = (Inr pr, T1)"
      "resolve k fs T1 c = (Inl e, T')" "res = Inl e"
  | (linked) pr T1 cr T2 where "resolve k fs T p = (Inr pr, T1)"
      "resolve k fs T1 c = (Inr cr, T2)" "res = Inr ()" "T' = link T2 pr cr"
  using assms unfolding resolve_def link_def
  by (auto simp: link_images.simps Let_def split: prod.splits sum.splits)

lemma create_tree_cases:
  assumes "create_tree k fs T (n # ns) = (res, T')"
  obtains (nolookup) e where "get_image k fs T n True = (Inl e, T')" "res = Inl e"
  | (noadd) r T1 e where "get_image k fs T n True = (Inr r, T1)"
      "add_to_tree k fs T1 r = (Inl e, T')" "res = Inl e"
  | (continue) r T1 T2 where "get_image k fs T n True = (Inr r, T1)"
      "add_to_tree k fs T1 r = (Inr (), T2)" "create_tree k fs T2 ns = (res, T')"
  using assms by (auto split: prod.splits sum.splits)

lemma parse_state:
  "snd (parse_parent_from_dockerfile fs T self) = T \<or>
   snd (parse_parent_from_dockerfile fs T self) = upd T self (\<lambda>i. i\<lparr>python_compat := False\<rparr>)"
  by (simp add: parse_parent_from_dockerfile_def split: option.split list.split sum.split prod.split)

subsection \<open>The compatibility flag never returns to true\<close>

lemma compat_mono_refl [simp]: "compat_mono T T"
  by (simp add: compat_mono_def)

lemma compat_mono_trans: "compat_mono T T1 \<Longrightarrow> compat_mono T1 T2 \<Longrightarrow> compat_mono T T2"
  by (fastforce simp: compat_mono_def)

lemma compat_mono_upd:
  "(\<And>i. python_compat (f i) \<Longrightarrow> python_compat i) \<Longrightarrow> compat_mono T (upd T x f)"
  by (auto simp: compat_mono_def upd_def)

lemma compat_mono_upd_fields [simp]:
  "compat_mono T (upd T x (python_compat_update (\<lambda>_. False)))"
  "compat_mono T (upd T x (dirpath_update g))"
  "compat_mono T (upd T x (parent_update g'))"
  "compat_mono T (upd T x (children_update g''))"
  by (auto simp: compat_mono_def upd_def)

lemma add_child_mono: "compat_mono T (add_child T p c)"
  by (auto simp: compat_mono_def upd_def add_child_def)

lemma add_parent_mono: "compat_mono T (add_parent T c p)"
  by (auto simp: compat_mono_def upd_def add_parent_def)

lemma compat_mono_new_Image: "compat_mono T (snd (new_Image T n))"
  by (simp add: compat_mono_def new_Image_def)

lemma compat_mono_images [simp]: "compat_mono T (T'\<lparr>images := d\<rparr>) = compat_mono T T'"
  by (simp add: compat_mono_def)

lemma compat_mono_root_image [simp]: "compat_mono T (T'\<lparr>root_image := d\<rparr>) = compat_mono T T'"
  by (simp add: compat_mono_def)

lemma parse_mono: "compat_mono T (snd (parse_parent_from_dockerfile fs T x))"
  using parse_state [of fs T x] compat_mono_upd [of "\<lambda>i. i\<lparr>python_compat := False\<rparr>" T x]
  by auto

lemma link_mono: "compat_mono T (link T p c)"
proof -
  have 1: "compat_mono T (if \<not> python_compat (heap T p)
                            then upd T c (\<lambda>i. i\<lparr>python_compat := False\<rparr>) else T)"
    (is "compat_mono T ?T3")
    by simp
  have 2: "compat_mono ?T3 (add_child ?T3 p c)"
    by (rule add_child_mono)
  have 3: "compat_mono (add_child ?T3 p c) (add_parent (add_child ?T3 p c) c p)"
    by (rule add_parent_mono)
  show ?thesis
    unfolding link_def using 1 2 3 compat_mono_trans by blast
qed

lemma resolve_mono_step:
  assumes "\<And>T n. compat_mono T (snd (create_image k fs T n))"
  shows "compat_mono T (snd (resolve k fs T x))"
proof (cases x)
  case (Inl n)
  obtain res T' where g: "get_image k fs T n True = (res, T')"
    by (cases "get_image k fs T n True")
  from g have "compat_mono T T'"
    by (cases rule: get_image_cases) (use assms [of T n] in auto)
  with g Inl show ?thesis by (simp add: resolve_def)
next
  case (Inr r)
  then show ?thesis by (simp add: resolve_def)
qed

lemma link_images_mono_step:
  assumes IH: "\<And>T n. compat_mono T (snd (create_image k fs T n))"
  shows "compat_mono T (snd (link_images k fs T p c))"
proof -
  note r = resolve_mono_step [OF IH]
  obtain res T' where l: "link_images k fs T p c = (res, T')"
    by (cases "link_images k fs T p c")
  from l have "compat_mono T T'"
  proof (cases rule: link_images_cases)
    case (noparent e)
    then show ?thesis using r [of T p] by simp
  next
    case (nochild pr T1 e)
    then show ?thesis using r [of T p] r [of T1 c] compat_mono_trans by fastforce
  next
    case (linked pr T1 cr T2)
    have "compat_mono T T1" "compat_mono T1 T2" "compat_mono T2 T'"
      using linked r [of T p] r [of T1 c] link_mono by simp_all
    then show ?thesis using compat_mono_trans by blast
  qed
  with l show ?thesis by simp
qed

lemma add_to_tree_mono_step:
  assumes IH: "\<And>T n. compat_mono T (snd (create_image k fs T n))"
  shows "compat_mono T (snd (add_to_tree k fs T x))"
proof -
  note li = link_images_mono_step [OF IH]
  obtain res T' where a: "add_to_tree k fs T x = (res, T')"
    by (cases "add_to_tree k fs T x")
  from a have "compat_mono T T'"
  proof (cases rule: add_to_tree_cases)
    case nopath
    then show ?thesis by simp
  next
    case (root d)
    then show ?thesis by simp
  next
    case (unparsed d e)
    then show ?thesis using parse_mono [of T fs x] by simp
  next
    case (linked d p T1)
    have "compat_mono T T1" "compat_mono T1 T'"
      using linked parse_mono [of T fs x] li [of T1 "Inl p" "Inr x"] by simp_all
    then show ?thesis by (rule compat_mono_trans)
  qed
  with a show ?thesis by simp
qed

lemma create_image_mono: "compat_mono T (snd (create_image k fs T n))"
proof (induction k arbitrary: T n)
  case 0
  then show ?case by (simp add: create_image.simps)
next
  case (Suc k)
  note a = add_to_tree_mono_step [of k fs, OF Suc]
  obtain res T' where c: "create_image (Suc k) fs T n = (res, T')"
    by (cases "create_image (Suc k) fs T n")
  from c have "compat_mono T T'"
  proof (cases rule: create_image_cases)
    case (failed e)
    then show ?thesis
      using a [of "snd (new_Image T n)" "nxt T"] compat_mono_new_Image [of T n] compat_mono_trans
      by fastforce
  next
    case (created T2)
    then show ?thesis
      using a [of "snd (new_Image T n)" "nxt T"] compat_mono_new_Image [of T n] compat_mono_trans
      by fastforce
  qed
  with c show ?case by simp
qed

lemma add_to_tree_mono: "compat_mono T (snd (add_to_tree k fs T x))"
  by (rule add_to_tree_mono_step) (rule create_image_mono)

lemma link_images_mono: "compat_mono T (snd (link_images k fs T p c))"
  by (rule link_images_mono_step) (rule create_image_mono)

lemma get_image_mono: "compat_mono T (snd (get_image k fs T n b))"
proof -
  obtain res T' where g: "get_image k fs T n b = (res, T')"
    by (cases "get_image k fs T n b")
  from g have "compat_mono T T'"
    by (cases rule: get_image_cases) (use create_image_mono [of T k fs n] in auto)
  with g show ?thesis by simp
qed

lemma create_tree_mono: "compat_mono T (snd (create_tree k fs T ns))"
proof (induction ns arbitrary: T)
  case Nil
  then show ?case by simp
next
  case (Cons n ns)
  obtain res T' where c: "create_tree k fs T (n # ns) = (res, T')"
    by (cases "create_tree k fs T (n # ns)")
  from c have "compat_mono T T'"
  proof (cases rule: create_tree_cases)
    case (nolookup e)
    then show ?thesis using get_image_mono [of T k fs n True] by simp
  next
    case (noadd r T1 e)
    then show ?thesis
      using get_image_mono [of T k fs n True] add_to_tree_mono [of T1 k fs r] compat_mono_trans
      by fastforce
  next
    case (continue r T1 T2)
    have "compat_mono T T1" "compat_mono T1 T2" "compat_mono T2 T'"
      using continue get_image_mono [of T k fs n True] add_to_tree_mono [of T1 k fs r]
        Cons.IH [of T2] by simp_all
    then show ?thesis using compat_mono_trans by blast
  qed
  with c show ?case by simp
qed

lemma get_image_lookup_state: "snd (get_image k fs T n False) = T"
  by (simp add: get_image.simps split: option.split)

lemma dependent_imgs_state: "snd (dependent_imgs k fs T ns) = T"
proof (induction ns)
  case Nil
  then show ?case by simp
next
  case (Cons n ns)
  obtain res T1 where g: "get_image k fs T n False = (res, T1)"
    by (cases "get_image k fs T n False")
  with get_image_lookup_state [of k fs T n] have "T1 = T" by simp
  with g Cons show ?case
    by (auto split: prod.split sum.split)
qed

lemma determine_rebuilds_state: "snd (determine_rebuilds los k fs T ns) = T"
  using dependent_imgs_state [of k fs T ns]
  by (auto simp: determine_rebuilds_def Let_def split: prod.split sum.split)

text \<open>
  Claim C7. A new image is compatible. Once the flag of an image that exists in the store
  is false, it is false after every operation: parsing, registering (\<open>add_to_tree\<close>),
  linking, creating and looking up (\<open>get_image\<close>, \<open>create_image\<close>), the construction
  loop and the rebuild query, whether the operation returns or raises.
\<close>

theorem python_compat_monotone:
  assumes "r < nxt T" and "\<not> python_compat (heap T r)"
  shows "python_compat (Image_init n) \<and>
         python_compat (heap (snd (new_Image T n)) (fst (new_Image T n))) \<and>
         \<not> python_compat (heap (snd (parse_parent_from_dockerfile fs T x)) r) \<and>
         \<not> python_compat (heap (snd (add_to_tree k fs T x)) r) \<and>
         \<not> python_compat (heap (snd (link_images k fs T p c)) r) \<and>
         \<not> python_compat (heap (snd (create_image k fs T n)) r) \<and>
         \<not> python_compat (heap (snd (get_image k fs T n b)) r) \<and>
         \<not> python_compat (heap (snd (create_tree k fs T ns)) r) \<and>
         \<not> python_compat (heap (snd (determine_rebuilds los k fs T ns)) r)"
proof -
  have m: "\<And>T'. compat_mono T T' \<Longrightarrow> \<not> python_compat (heap T' r)"
    using assms by (simp add: compat_mono_def)
  show ?thesis
    by (simp add: Image_init_def new_Image_def determine_rebuilds_state assms
        m [OF parse_mono] m [OF add_to_tree_mono] m [OF link_images_mono]
        m [OF create_image_mono] m [OF get_image_mono] m [OF create_tree_mono])
qed

subsection \<open>Parsing a definition file\<close>

lemma malformed_parent_reference: "malformed ls \<Longrightarrow> parent_reference ls = Inl StopIteration"
  by (auto simp: malformed_def parent_reference_def value_from_arg_def Let_def
      split: option.splits)

lemma parse_malformed:
  assumes "dirpath (heap T self) = Some d" "read_dockerfile fs d = Inr ls" "malformed ls"
  shows "parse_parent_from_dockerfile fs T self = (Inl StopIteration, T)"
  using assms by (simp add: parse_parent_from_dockerfile_def malformed_parent_reference)

lemma add_to_tree_malformed:
  assumes "dirpath (heap T self) = Some d" "fs d = Dir (Some ls)" "malformed ls"
  shows "add_to_tree k fs T self = (Inl StopIteration, T)"
proof -
  have "read_dockerfile fs d = Inr ls" "is_dir fs d"
    using assms by (simp_all add: read_dockerfile_def is_dir_def)
  then show ?thesis
    using assms by (simp add: add_to_tree.simps parse_malformed)
qed

lemma create_image_malformed:
  assumes "fs n = Dir (Some ls)" "malformed ls"
  shows "create_image (Suc k) fs T n = (Inl StopIteration, snd (new_Image T n))"
proof -
  have "dirpath (heap (snd (new_Image T n)) (nxt T)) = Some n"
    by (simp add: new_Image_def Image_init_def)
  then have "add_to_tree k fs (snd (new_Image T n)) (nxt T) = (Inl StopIteration, snd (new_Image T n))"
    using assms by (rule add_to_tree_malformed)
  then show ?thesis
    by (simp add: create_image.simps new_Image_def)
qed

text \<open>
  What the parse changes, with the tag as \<open>split_image_tag\<close> gives it: when the
  reference splits at exactly one colon into an image and a tag, the tag is not empty,
  its first character is a digit and the tag differs from the tree's version token, the
  compatibility flag of the parsed image becomes false and nothing else changes. In
  every other case, also when the parse raises, the tree is as it was.
\<close>

lemma parse_changes_flag_only:
  "parse_parent_from_dockerfile fs T self = (res, T') \<Longrightarrow>
   T' = (if (\<exists>d ls ref img c cs.
               dirpath (heap T self) = Some d \<and> read_dockerfile fs d = Inr ls \<and>
               parent_reference ls = Inr ref \<and> split_image_tag ref = (img, Some (c # cs)) \<and>
               isdigit c \<and> Some (c # cs) \<noteq> python_version T)
         then upd T self (\<lambda>i. i\<lparr>python_compat := False\<rparr>)
         else T)"
  by (auto simp: parse_parent_from_dockerfile_def
      split: option.splits sum.splits prod.splits list.splits if_splits)

subsection \<open>ancestors\<close>

lemma ancestors_parentless:
  "parent (heap T r) = None \<Longrightarrow> root_image T \<noteq> None \<Longrightarrow>
     ancestors (Suc k) T r = Inl AttributeError"
  by auto

lemma ancestors_parentless_fails:
  "parent (heap T r) = None \<Longrightarrow> root_image T \<noteq> None \<Longrightarrow> ancestors k T r \<noteq> Inr xs"
  by (cases k) auto

lemma sort_keys_ancestors:
  "sort_keys k T xs = Inr ks \<Longrightarrow> x \<in> set xs \<Longrightarrow> \<exists>a. ancestors k T x = Inr a"
  by (induction xs arbitrary: ks) (auto split: sum.splits)

lemma sort_keys_length:
  "sort_keys k T xs = Inr ks \<Longrightarrow> length ks = length xs"
  by (induction xs arbitrary: ks) (auto split: sum.splits)

subsection \<open>descendants\<close>

lemma extend_descendants_set:
  assumes "\<And>x ds. descendants k T x = Inr ds \<Longrightarrow> set ds = (child_rel T)\<^sup>* `` {x}"
  shows "extend_descendants k T cs = Inr ds \<Longrightarrow> set ds = (child_rel T)\<^sup>* `` set cs"
proof (induction cs arbitrary: ds)
  case Nil
  then show ?case by simp
next
  case (Cons c cs)
  from Cons.prems obtain d1 d2 where
    1: "descendants k T c = Inr d1" and 2: "extend_descendants k T cs = Inr d2"
    and 3: "ds = d1 @ d2"
    by (auto split: sum.splits)
  show ?case using assms [OF 1] Cons.IH [OF 2] 3 by auto
qed

lemma rtrancl_image_unfold: "R\<^sup>* `` {x} = insert x (R\<^sup>* `` (R `` {x}))"
  by (auto elim: converse_rtranclE intro: converse_rtrancl_into_rtrancl)

lemma descendants_set:
  "descendants k T x = Inr ds \<Longrightarrow> set ds = (child_rel T)\<^sup>* `` {x}"
proof (induction k arbitrary: x ds)
  case 0
  then show ?case by simp
next
  case (Suc k)
  from Suc.prems obtain descs where
    1: "extend_descendants k T (children (heap T x)) = Inr descs" and 2: "ds = x # descs"
    by (auto split: sum.splits)
  have "set descs = (child_rel T)\<^sup>* `` set (children (heap T x))"
    using Suc.IH 1 by (rule extend_descendants_set)
  moreover have "set (children (heap T x)) = child_rel T `` {x}"
    by (auto simp: child_rel_def)
  ultimately show ?case
    using 2 rtrancl_image_unfold [of "child_rel T" x] by simp
qed

lemma get_image_no_create:
  "get_image k fs T n False =
     (case map_of (images T) n of
        Some r \<Rightarrow> (Inr r, T)
      | None \<Rightarrow> (Inl (ValueError (not_found n (images T))), T))"
  by (simp add: get_image.simps split: option.split)

text \<open>\<open>sep.join(xs)\<close> written with \<open>concat\<close>, and every element of the list occurs in
  the joined string.\<close>

lemma join_concat:
  "join sep (x # xs) = x @ concat (map ((@) sep) xs)"
  by (induction xs arbitrary: x) simp_all

lemma join_lists:
  "n \<in> set xs \<Longrightarrow> \<exists>a b. join sep xs = a @ n @ b"
proof (induction sep xs rule: join.induct)
  case (1 sep)
  then show ?case by simp
next
  case (2 sep x)
  then have "join sep [x] = [] @ n @ []" by simp
  then show ?case by blast
next
  case (3 sep x y ys)
  show ?case
  proof (cases "n = x")
    case True
    then have "join sep (x # y # ys) = [] @ n @ (sep @ join sep (y # ys))" by simp
    then show ?thesis by blast
  next
    case False
    with 3 obtain a b where "join sep (y # ys) = a @ n @ b" by auto
    then have "join sep (x # y # ys) = (x @ sep @ a) @ n @ b" by simp
    then show ?thesis by blast
  qed
qed

text \<open>
  Claim C5. \<open>get_image\<close> without \<open>create_new\<close> returns the object registered under the
  name when there is one, and the tree as it was. Otherwise it raises the \<open>ValueError\<close>
  whose message is \<open>No Image named\<close>, the missing name, \<open>in:\<close> and the keys of the
  dictionary in the dictionary's order with a comma and a space between them, and it
  leaves the tree as it was; every key of the dictionary occurs in that message.
\<close>

theorem get_image_found_or_not_found:
  "get_image k fs T image_name False =
     (case map_of (images T) image_name of
        Some r \<Rightarrow> (Inr r, T)
      | None \<Rightarrow>
          (Inl (ValueError (''No Image named '' @ image_name @ '' in:'' @
                  (case map fst (images T) of
                     [] \<Rightarrow> []
                   | n # ns \<Rightarrow> n @ concat (map ((@) '', '') ns)))), T)) \<and>
   (map_of (images T) image_name = None \<longrightarrow>
      (\<forall>n \<in> fst ` set (images T).
         \<exists>msg a b. get_image k fs T image_name False = (Inl (ValueError msg), T) \<and>
                   msg = a @ n @ b))"
proof (intro conjI impI ballI)
  show "get_image k fs T image_name False =
     (case map_of (images T) image_name of
        Some r \<Rightarrow> (Inr r, T)
      | None \<Rightarrow>
          (Inl (ValueError (''No Image named '' @ image_name @ '' in:'' @
                  (case map fst (images T) of
                     [] \<Rightarrow> []
                   | n # ns \<Rightarrow> n @ concat (map ((@) '', '') ns)))), T))"
    by (simp add: get_image.simps not_found_def join_concat split: option.split list.split)
next
  fix n
  assume none: "map_of (images T) image_name = None" and n: "n \<in> fst ` set (images T)"
  from n have "n \<in> set (map fst (images T))" by simp
  then obtain a b where "join '', '' (map fst (images T)) = a @ n @ b"
    using join_lists by blast
  then have "not_found image_name (images T) =
      (''No Image named '' @ image_name @ '' in:'' @ a) @ n @ b"
    by (simp add: not_found_def)
  moreover have "get_image k fs T image_name False =
      (Inl (ValueError (not_found image_name (images T))), T)"
    using none by (simp add: get_image.simps)
  ultimately show "\<exists>msg a b. get_image k fs T image_name False = (Inl (ValueError msg), T) \<and>
                   msg = a @ n @ b"
    by blast
qed

lemma dependent_imgs_set:
  "dependent_imgs k fs T ns = (Inr deps, T') \<Longrightarrow>
     set ns \<subseteq> dom (map_of (images T)) \<and>
     set deps = (\<Union>n\<in>set ns. (child_rel T)\<^sup>* `` {the (map_of (images T) n)})"
proof (induction ns arbitrary: deps T')
  case Nil
  then show ?case by simp
next
  case (Cons n ns)
  from Cons.prems obtain r where r: "map_of (images T) n = Some r"
    by (cases "map_of (images T) n") (auto simp: get_image_no_create)
  then have g: "get_image k fs T n False = (Inr r, T)"
    by (simp add: get_image_no_create)
  from Cons.prems g obtain ds others T2 where
    1: "descendants k T r = Inr ds" and 2: "dependent_imgs k fs T ns = (Inr others, T2)"
    and 3: "deps = ds @ others"
    by (auto split: sum.splits prod.splits)
  show ?case
    using Cons.IH [OF 2] descendants_set [OF 1] r 3 by auto
qed

lemma determine_rebuilds_parts:
  assumes "determine_rebuilds los k fs T ns = (Inr out, T')"
  obtains deps ks where "dependent_imgs k fs T ns = (Inr deps, T)"
    "sort_keys k T (los deps) = Inr ks" "T' = T"
    "out = map (\<lambda>img. name (heap T img))
             (filter (\<lambda>img. python_compat (heap T img))
                (map fst (sort_key snd (zip (los deps) ks))))"
proof -
  obtain res T1 where d: "dependent_imgs k fs T ns = (res, T1)"
    by (cases "dependent_imgs k fs T ns")
  have T1: "T1 = T" using dependent_imgs_state [of k fs T ns] d by simp
  from assms d obtain deps where res: "res = Inr deps"
    by (cases res) (simp_all add: determine_rebuilds_def)
  from assms d res T1 obtain ks where ks: "sort_keys k T (los deps) = Inr ks"
    by (cases "sort_keys k T (los deps)") (simp_all add: determine_rebuilds_def Let_def)
  have "T' = T" using determine_rebuilds_state [of los k fs T ns] assms by simp
  moreover have "out = map (\<lambda>img. name (heap T img))
             (filter (\<lambda>img. python_compat (heap T img))
                (map fst (sort_key snd (zip (los deps) ks))))"
    using assms d res T1 ks by (auto simp: determine_rebuilds_def Let_def)
  ultimately show ?thesis
    using that d res T1 ks by simp
qed

text \<open>
  Claim C10. On the root image, whose parent is \<open>None\<close>, \<open>ancestors\<close> raises
  \<open>AttributeError\<close> (or \<open>RecursionError\<close> when no call is left): it never returns a
  sequence. So whenever \<open>determine_rebuilds\<close> returns, no edited name denotes the root
  image and the root image is in no collected descendant set.
\<close>

theorem ancestors_undefined_on_root:
  assumes "root_image T = Some r" and "parent (heap T r) = None"
  shows "ancestors (Suc k) T r = Inl AttributeError \<and>
         (\<forall>k'. \<exists>e. ancestors k' T r = Inl e) \<and>
         (\<forall>los k' fs ns out T'.
            (\<forall>xs. set (los xs) = set xs) \<longrightarrow>
            determine_rebuilds los k' fs T ns = (Inr out, T') \<longrightarrow>
            (\<forall>n \<in> set ns. \<exists>x. map_of (images T) n = Some x \<and> x \<noteq> r \<and>
                (x, r) \<notin> (child_rel T)\<^sup>*))"
proof (intro conjI allI impI ballI)
  show "ancestors (Suc k) T r = Inl AttributeError"
    using assms by simp
next
  fix k'
  show "\<exists>e. ancestors k' T r = Inl e"
    using ancestors_parentless_fails [of T r k'] assms
    by (cases "ancestors k' T r") auto
next
  fix los :: "ref list \<Rightarrow> ref list" and k' fs ns out T' n
  assume los: "\<forall>xs. set (los xs) = set xs"
    and dr: "determine_rebuilds los k' fs T ns = (Inr out, T')" and n: "n \<in> set ns"
  from dr obtain deps ks where d: "dependent_imgs k' fs T ns = (Inr deps, T)"
    and s: "sort_keys k' T (los deps) = Inr ks"
    by (rule determine_rebuilds_parts)
  from dependent_imgs_set [OF d] n obtain x where x: "map_of (images T) n = Some x"
    and sub: "(child_rel T)\<^sup>* `` {x} \<subseteq> set deps"
    by fastforce
  have "r \<notin> set deps"
  proof
    assume "r \<in> set deps"
    then have "r \<in> set (los deps)" using los by simp
    from sort_keys_ancestors [OF s this] show False
      using ancestors_parentless_fails [of T r k'] assms by auto
  qed
  then have "(x, r) \<notin> (child_rel T)\<^sup>*" using sub by auto
  then show "\<exists>x. map_of (images T) n = Some x \<and> x \<noteq> r \<and> (x, r) \<notin> (child_rel T)\<^sup>*"
    using x by auto
qed

subsection \<open>Parsing by name\<close>

lemma parse_decl:
  "dirpath (heap T self) = Some d \<Longrightarrow>
   parse_parent_from_dockerfile fs T self =
     (case decl fs (python_version T) d of
        Inl e \<Rightarrow> (Inl e, T)
      | Inr (img, pin) \<Rightarrow>
          (Inr img, if pin then upd T self (\<lambda>i. i\<lparr>python_compat := False\<rparr>) else T))"
  by (auto simp: parse_parent_from_dockerfile_def decl_def
      split: option.splits sum.splits prod.splits list.splits)

subsection \<open>Fields after an update\<close>

lemma upd_simps [simp]:
  "nxt (upd T x f) = nxt T"
  "images (upd T x f) = images T"
  "root_image (upd T x f) = root_image T"
  "python_version (upd T x f) = python_version T"
  "heap (upd T x f) y = (if y = x then f (heap T x) else heap T y)"
  by (simp_all add: upd_def)

lemma link_simps [simp]:
  "nxt (link T p c) = nxt T"
  "images (link T p c) = images T"
  "root_image (link T p c) = root_image T"
  "python_version (link T p c) = python_version T"
  "name (heap (link T p c) x) = name (heap T x)"
  "dirpath (heap (link T p c) x) = dirpath (heap T x)"
  "parent (heap (link T p c) x) = (if x = c then Some p else parent (heap T x))"
  "python_compat (heap (link T p c) x) =
     (if x = c then python_compat (heap T c) \<and> python_compat (heap T p)
      else python_compat (heap T x))"
  "set (children (heap (link T p c) x)) =
     (if x = p then insert c (set (children (heap T p))) else set (children (heap T x)))"
  by (auto simp: link_def add_child_def add_parent_def)

lemma register_simps [simp]:
  "nxt (register T n r) = nxt T"
  "heap (register T n r) = heap T"
  "root_image (register T n r) = root_image T"
  "python_version (register T n r) = python_version T"
  "lookup (register T n r) = (lookup T)(n \<mapsto> r)"
  by (simp_all add: register_def update_conv')

lemma update_fresh: "k \<notin> fst ` set al \<Longrightarrow> AList.update k v al = al @ [(k, v)]"
  by (induction al) auto

lemma register_length:
  "lookup T n = None \<Longrightarrow> length (images (register T n r)) = Suc (length (images T))"
  by (simp add: register_def update_fresh map_of_eq_None_iff)

subsection \<open>Depth\<close>

lemma has_depth_fun: "has_depth T r d \<Longrightarrow> has_depth T r d' \<Longrightarrow> d = d'"
proof (induction d arbitrary: r d')
  case 0
  then show ?case by (cases d') auto
next
  case (Suc d)
  then show ?case by (cases d') (auto split: option.splits)
qed

lemma has_depth_step:
  "has_depth T x d \<Longrightarrow> (x, y) \<in> parent_rel T \<Longrightarrow> \<exists>d'. d = Suc d' \<and> has_depth T y d'"
  by (cases d) (auto simp: parent_rel_def)

lemma has_depth_rtrancl:
  "(x, y) \<in> (parent_rel T)\<^sup>* \<Longrightarrow> has_depth T x d \<Longrightarrow> \<exists>d' \<le> d. has_depth T y d'"
proof (induction arbitrary: d rule: converse_rtrancl_induct)
  case base
  then show ?case by auto
next
  case (step x z)
  from has_depth_step [OF step.prems step.hyps(1)] obtain d1 where
    "d = Suc d1" "has_depth T z d1" by auto
  with step.IH [of d1] show ?case by (meson le_SucI)
qed

lemma no_parent_cycle:
  assumes "has_depth T x d" "(x, y) \<in> parent_rel T" "(y, x) \<in> (parent_rel T)\<^sup>*"
  shows False
proof -
  from has_depth_step [OF assms(1,2)] obtain d1 where d1: "d = Suc d1" "has_depth T y d1"
    by auto
  from has_depth_rtrancl [OF assms(3) d1(2)] obtain d2 where d2: "d2 \<le> d1" "has_depth T x d2"
    by auto
  from has_depth_fun [OF assms(1) d2(2)] d1(1) d2(1) show False by simp
qed

subsection \<open>The invariant and what leaves it alone\<close>

lemma GoodD: "Good fs T \<Longrightarrow> lookup T n = Some r \<Longrightarrow> node_ok fs T n r"
  by (simp add: Good_def)

lemma Good_root: "Good fs T \<Longrightarrow> root_ok T"
  by (simp add: Good_def)

lemma Good_name: "Good fs T \<Longrightarrow> lookup T n = Some r \<Longrightarrow> name (heap T r) = n"
  by (simp add: Good_def node_ok_def)

lemma Good_parent_registered:
  assumes "Good fs T" "lookup T n = Some r" "parent (heap T r) = Some p"
  shows "\<exists>m. lookup T m = Some p"
  using GoodD [OF assms(1,2)] assms(3)
  by (auto simp: node_ok_def split: if_splits)

lemma inflight_unregistered: "Good fs T \<Longrightarrow> inflight T n c \<Longrightarrow> lookup T m \<noteq> Some c"
  using Good_name [of fs T m c] by (auto simp: inflight_def)

lemma has_depth_frame:
  assumes "Good fs T"
    and "\<And>m x. lookup T m = Some x \<Longrightarrow> parent (heap T' x) = parent (heap T x)"
  shows "lookup T n = Some r \<Longrightarrow> has_depth T r d \<Longrightarrow> has_depth T' r d"
proof (induction d arbitrary: n r)
  case 0
  then show ?case using assms(2) [of n r] by simp
next
  case (Suc d)
  from Suc.prems obtain p where p: "parent (heap T r) = Some p" "has_depth T p d"
    by (auto split: option.splits)
  from Good_parent_registered [OF assms(1) Suc.prems(1) p(1)] obtain m where
    "lookup T m = Some p" by auto
  from Suc.IH [OF this p(2)] p(1) assms(2) [OF Suc.prems(1)] show ?case by simp
qed

lemma node_ok_frame:
  assumes G: "Good fs T" and im: "images T' = images T"
    and ver: "python_version T' = python_version T" and nx: "nxt T \<le> nxt T'"
    and same: "\<And>m x. lookup T m = Some x \<Longrightarrow> heap T' x = heap T x"
    and l: "lookup T n = Some r"
  shows "node_ok fs T' n r"
proof -
  note ok = GoodD [OF G l]
  have 1: "r < nxt T'" "name (heap T' r) = n"
    using ok nx same [OF l] by (simp_all add: node_ok_def)
  have 2: "\<exists>d < length (images T'). has_depth T' r d"
  proof -
    from ok obtain d where d: "d < length (images T)" "has_depth T r d"
      by (auto simp: node_ok_def)
    have "has_depth T' r d"
      by (rule has_depth_frame [OF G _ l d(2)]) (simp add: same)
    with d(1) im show ?thesis by auto
  qed
  have 3: "\<forall>c \<in> set (children (heap T' r)).
             (\<exists>m. lookup T' m = Some c) \<and> parent (heap T' c) = Some r"
  proof
    fix c assume "c \<in> set (children (heap T' r))"
    then have "c \<in> set (children (heap T r))" using same [OF l] by simp
    with ok obtain m where m: "lookup T m = Some c" "parent (heap T c) = Some r"
      by (auto simp: node_ok_def)
    then show "(\<exists>m. lookup T' m = Some c) \<and> parent (heap T' c) = Some r"
      using same [OF m(1)] im by auto
  qed
  have 4: "if is_dir fs n then
        dirpath (heap T' r) = Some n \<and>
        (\<exists>p rp pin. decl fs (python_version T') n = Inr (p, pin) \<and> lookup T' p = Some rp \<and>
            parent (heap T' r) = Some rp \<and> r \<in> set (children (heap T' rp)) \<and>
            (pin \<longrightarrow> \<not> python_compat (heap T' r)) \<and>
            (\<not> python_compat (heap T' rp) \<longrightarrow> \<not> python_compat (heap T' r)))
      else dirpath (heap T' r) = None \<and> parent (heap T' r) = None"
  proof (cases "is_dir fs n")
    case True
    with ok obtain p rp pin where p: "dirpath (heap T r) = Some n"
      "decl fs (python_version T) n = Inr (p, pin)" "lookup T p = Some rp"
      "parent (heap T r) = Some rp" "r \<in> set (children (heap T rp))"
      "pin \<longrightarrow> \<not> python_compat (heap T r)"
      "\<not> python_compat (heap T rp) \<longrightarrow> \<not> python_compat (heap T r)"
      by (auto simp: node_ok_def)
    show ?thesis
      using True p same [OF l] same [OF p(3)] im ver by auto
  next
    case False
    with ok show ?thesis using same [OF l] by (simp add: node_ok_def)
  qed
  show ?thesis
    unfolding node_ok_def using 1 2 3 4 by blast
qed

lemma Good_frame:
  assumes "Good fs T" "images T' = images T" "python_version T' = python_version T"
    "nxt T \<le> nxt T'" "\<And>m x. lookup T m = Some x \<Longrightarrow> heap T' x = heap T x" "root_ok T'"
  shows "Good fs T'"
  unfolding Good_def
proof (intro conjI allI impI)
  fix n r assume "lookup T' n = Some r"
  then have "lookup T n = Some r" using assms(2) by simp
  then show "node_ok fs T' n r"
    using assms(1-5) by (intro node_ok_frame [of fs T T']) auto
qed (rule assms(6))

subsection \<open>Registering keeps the invariant\<close>

lemma node_ok_transfer:
  assumes ok: "node_ok fs T m x"
    and nx: "nxt T \<le> nxt T'"
    and ver: "python_version T' = python_version T"
    and len: "length (images T) \<le> length (images T')"
    and lk: "\<And>m' y. lookup T m' = Some y \<Longrightarrow> lookup T' m' = Some y"
    and fields: "name (heap T' x) = name (heap T x)" "dirpath (heap T' x) = dirpath (heap T x)"
      "parent (heap T' x) = parent (heap T x)"
      "python_compat (heap T' x) = python_compat (heap T x)"
    and dep: "\<And>d. has_depth T x d \<Longrightarrow> has_depth T' x d"
    and ch: "\<And>c'. c' \<in> set (children (heap T' x)) \<Longrightarrow>
               c' \<in> set (children (heap T x)) \<or>
               ((\<exists>m. lookup T' m = Some c') \<and> parent (heap T' c') = Some x)"
    and chpar: "\<And>c'. c' \<in> set (children (heap T x)) \<Longrightarrow>
               parent (heap T' c') = parent (heap T c')"
    and par: "\<And>rp. parent (heap T x) = Some rp \<Longrightarrow>
               set (children (heap T rp)) \<subseteq> set (children (heap T' rp)) \<and>
               python_compat (heap T' rp) = python_compat (heap T rp)"
  shows "node_ok fs T' m x"
proof -
  have 1: "x < nxt T'" "name (heap T' x) = m"
    using ok nx fields by (simp_all add: node_ok_def)
  have 2: "\<exists>d < length (images T'). has_depth T' x d"
  proof -
    from ok obtain d where d: "d < length (images T)" "has_depth T x d"
      by (auto simp: node_ok_def)
    from d(1) len have "d < length (images T')" by simp
    with dep [OF d(2)] show ?thesis by blast
  qed
  have 3: "\<forall>c \<in> set (children (heap T' x)).
             (\<exists>m. lookup T' m = Some c) \<and> parent (heap T' c) = Some x"
  proof
    fix c assume "c \<in> set (children (heap T' x))"
    from ch [OF this] show "(\<exists>m. lookup T' m = Some c) \<and> parent (heap T' c) = Some x"
    proof
      assume c: "c \<in> set (children (heap T x))"
      with ok obtain m' where m': "lookup T m' = Some c" "parent (heap T c) = Some x"
        by (auto simp: node_ok_def)
      with lk [OF m'(1)] chpar [OF c] show ?thesis by auto
    qed
  qed
  have 4: "if is_dir fs m then
        dirpath (heap T' x) = Some m \<and>
        (\<exists>p rp pin. decl fs (python_version T') m = Inr (p, pin) \<and> lookup T' p = Some rp \<and>
            parent (heap T' x) = Some rp \<and> x \<in> set (children (heap T' rp)) \<and>
            (pin \<longrightarrow> \<not> python_compat (heap T' x)) \<and>
            (\<not> python_compat (heap T' rp) \<longrightarrow> \<not> python_compat (heap T' x)))
      else dirpath (heap T' x) = None \<and> parent (heap T' x) = None"
  proof (cases "is_dir fs m")
    case True
    with ok obtain q rq pin where q: "dirpath (heap T x) = Some m"
      "decl fs (python_version T) m = Inr (q, pin)" "lookup T q = Some rq"
      "parent (heap T x) = Some rq" "x \<in> set (children (heap T rq))"
      "pin \<longrightarrow> \<not> python_compat (heap T x)"
      "\<not> python_compat (heap T rq) \<longrightarrow> \<not> python_compat (heap T x)"
      by (auto simp: node_ok_def)
    have "dirpath (heap T' x) = Some m" using q(1) fields by simp
    moreover have "decl fs (python_version T') m = Inr (q, pin)" using q(2) ver by simp
    moreover have "lookup T' q = Some rq" using lk [OF q(3)] .
    moreover have "parent (heap T' x) = Some rq" using q(4) fields by simp
    moreover have "x \<in> set (children (heap T' rq))" using par [OF q(4)] q(5) by auto
    moreover have "pin \<longrightarrow> \<not> python_compat (heap T' x)" using q(6) fields by simp
    moreover have "\<not> python_compat (heap T' rq) \<longrightarrow> \<not> python_compat (heap T' x)"
      using q(7) par [OF q(4)] fields by simp
    ultimately show ?thesis using True by auto
  next
    case False
    with ok fields show ?thesis by (simp add: node_ok_def)
  qed
  show ?thesis
    unfolding node_ok_def using 1 2 3 4 by blast
qed

lemma has_depth_register [simp]: "has_depth (register T n c) y d = has_depth T y d"
  by (induction d arbitrary: y) (auto split: option.splits)

lemma node_ok_register:
  assumes ok: "node_ok fs T m x" and n: "lookup T n = None"
  shows "node_ok fs (register T n c) m x"
proof (rule node_ok_transfer [OF ok])
  show "length (images T) \<le> length (images (register T n c))"
    using register_length [OF n, of c] by simp
next
  fix m' y assume "lookup T m' = Some y"
  then show "lookup (register T n c) m' = Some y" using n by auto
qed simp_all

lemma Good_register:
  assumes "Good fs T" "lookup T n = None" "node_ok fs (register T n c) n c"
  shows "Good fs (register T n c)"
  unfolding Good_def
proof (intro conjI allI impI)
  fix m x assume l: "lookup (register T n c) m = Some x"
  show "node_ok fs (register T n c) m x"
  proof (cases "m = n")
    case True
    with l assms(3) show ?thesis by simp
  next
    case False
    with l have "lookup T m = Some x" by simp
    from node_ok_register [OF GoodD [OF assms(1) this] assms(2)] show ?thesis .
  qed
next
  show "root_ok (register T n c)"
    using Good_root [OF assms(1)] by (simp add: root_ok_def)
qed

lemma Good_register_root:
  assumes G: "Good fs T" and inf: "inflight T n c" and nd: "\<not> is_dir fs n"
  shows "Good fs (register ((upd T c (\<lambda>i. i\<lparr>dirpath := None\<rparr>))\<lparr>root_image := Some c\<rparr>) n c)"
    (is "Good fs (register ?T1 n c)")
proof -
  have unreg: "\<And>m. lookup T m \<noteq> Some c"
    using inflight_unregistered [OF G inf] .
  have G1: "Good fs ?T1"
  proof (rule Good_frame [OF G])
    show "root_ok ?T1" using inf by (simp add: root_ok_def inflight_def)
  next
    fix m x assume "lookup T m = Some x"
    then show "heap ?T1 x = heap T x" using unreg [of m] by auto
  qed simp_all
  have n: "lookup ?T1 n = None" using inf by (simp add: inflight_def)
  have "0 < length (images (register ?T1 n c))"
    using register_length [OF n, of c] by simp
  then have "\<exists>d < length (images (register ?T1 n c)). has_depth (register ?T1 n c) c d"
    using inf by (intro exI [of _ 0]) (simp add: inflight_def)
  then have "node_ok fs (register ?T1 n c) n c"
    unfolding node_ok_def using inf nd by (simp add: inflight_def)
  from Good_register [OF G1 n this] show ?thesis .
qed

lemma node_ok_link_old:
  assumes G: "Good fs T" and inf: "inflight T n c" and rp: "lookup T p = Some rp"
    and l: "lookup T m = Some x"
  shows "node_ok fs (register (link T rp c) n c) m x" (is "node_ok fs ?T' m x")
proof (rule node_ok_transfer [OF GoodD [OF G l]])
  have unreg: "\<And>m. lookup T m \<noteq> Some c"
    using inflight_unregistered [OF G inf] .
  have n: "lookup T n = None" using inf by (simp add: inflight_def)
  have xc: "x \<noteq> c" using unreg [of m] l by auto
  show "length (images T) \<le> length (images ?T')"
    using register_length [of "link T rp c" n c] n by simp
  show "\<And>m' y. lookup T m' = Some y \<Longrightarrow> lookup ?T' m' = Some y"
    using n by auto
  show "name (heap ?T' x) = name (heap T x)" "dirpath (heap ?T' x) = dirpath (heap T x)"
    "parent (heap ?T' x) = parent (heap T x)"
    "python_compat (heap ?T' x) = python_compat (heap T x)"
    using xc by simp_all
  show "has_depth ?T' x d" if "has_depth T x d" for d
    unfolding has_depth_register
  proof (rule has_depth_frame [OF G _ l that])
    fix m' y assume "lookup T m' = Some y"
    then have "y \<noteq> c" using unreg [of m'] by auto
    then show "parent (heap (link T rp c) y) = parent (heap T y)" by simp
  qed
  show "c' \<in> set (children (heap T x)) \<or>
        ((\<exists>m. lookup ?T' m = Some c') \<and> parent (heap ?T' c') = Some x)"
    if "c' \<in> set (children (heap ?T' x))" for c'
    using that by (auto split: if_splits)
  show "parent (heap ?T' c') = parent (heap T c')" if "c' \<in> set (children (heap T x))" for c'
  proof -
    from GoodD [OF G l] that obtain m' where "lookup T m' = Some c'"
      by (auto simp: node_ok_def)
    then have "c' \<noteq> c" using unreg [of m'] by auto
    then show ?thesis by simp
  qed
  show "set (children (heap T q)) \<subseteq> set (children (heap ?T' q)) \<and>
        python_compat (heap ?T' q) = python_compat (heap T q)"
    if "parent (heap T x) = Some q" for q
  proof -
    from Good_parent_registered [OF G l that] obtain m' where "lookup T m' = Some q" by auto
    then have "q \<noteq> c" using unreg [of m'] by auto
    then show ?thesis by auto
  qed
qed simp_all

lemma node_ok_link_new:
  assumes G: "Good fs T" and inf: "inflight T n c" and rp: "lookup T p = Some rp"
    and dir: "is_dir fs n" and d: "decl fs (python_version T) n = Inr (p, pin)"
    and pin: "pin \<longrightarrow> \<not> python_compat (heap T c)"
  shows "node_ok fs (register (link T rp c) n c) n c" (is "node_ok fs ?T' n c")
proof -
  have unreg: "\<And>m. lookup T m \<noteq> Some c"
    using inflight_unregistered [OF G inf] .
  have n: "lookup T n = None" using inf by (simp add: inflight_def)
  have rpc: "rp \<noteq> c" using unreg [of p] rp by auto
  have pn: "p \<noteq> n" using rp n by auto
  have len: "length (images ?T') = Suc (length (images T))"
    using register_length [of "link T rp c" n c] n by simp
  have 1: "c < nxt ?T'" "name (heap ?T' c) = n"
    using inf by (simp_all add: inflight_def)
  have 2: "\<exists>d < length (images ?T'). has_depth ?T' c d"
  proof -
    from GoodD [OF G rp] obtain d where d: "d < length (images T)" "has_depth T rp d"
      by (auto simp: node_ok_def)
    have "has_depth (link T rp c) rp d"
    proof (rule has_depth_frame [OF G _ rp d(2)])
      fix m' y assume "lookup T m' = Some y"
      then have "y \<noteq> c" using unreg [of m'] by auto
      then show "parent (heap (link T rp c) y) = parent (heap T y)" by simp
    qed
    then have "has_depth ?T' c (Suc d)" by simp
    with d(1) len show ?thesis by (metis Suc_less_eq)
  qed
  have 3: "\<forall>c' \<in> set (children (heap ?T' c)).
             (\<exists>m. lookup ?T' m = Some c') \<and> parent (heap ?T' c') = Some c"
    using inf rpc by (simp add: inflight_def)
  have 4: "dirpath (heap ?T' c) = Some n \<and>
        (\<exists>p rp pin. decl fs (python_version ?T') n = Inr (p, pin) \<and> lookup ?T' p = Some rp \<and>
            parent (heap ?T' c) = Some rp \<and> c \<in> set (children (heap ?T' rp)) \<and>
            (pin \<longrightarrow> \<not> python_compat (heap ?T' c)) \<and>
            (\<not> python_compat (heap ?T' rp) \<longrightarrow> \<not> python_compat (heap ?T' c)))"
  proof -
    have "dirpath (heap ?T' c) = Some n" using inf by (simp add: inflight_def)
    moreover have "decl fs (python_version ?T') n = Inr (p, pin)" using d by simp
    moreover have "lookup ?T' p = Some rp" using rp pn by simp
    moreover have "parent (heap ?T' c) = Some rp" by simp
    moreover have "c \<in> set (children (heap ?T' rp))" by simp
    moreover have "pin \<longrightarrow> \<not> python_compat (heap ?T' c)" using pin by simp
    moreover have "\<not> python_compat (heap ?T' rp) \<longrightarrow> \<not> python_compat (heap ?T' c)"
      using rpc by simp
    ultimately show ?thesis by blast
  qed
  show ?thesis
    unfolding node_ok_def using 1 2 3 4 dir by simp
qed

lemma Good_register_link:
  assumes G: "Good fs T" and inf: "inflight T n c" and rp: "lookup T p = Some rp"
    and dir: "is_dir fs n" and d: "decl fs (python_version T) n = Inr (p, pin)"
    and pin: "pin \<longrightarrow> \<not> python_compat (heap T c)"
  shows "Good fs (register (link T rp c) n c)" (is "Good fs ?T'")
  unfolding Good_def
proof (intro conjI allI impI)
  fix m x assume l: "lookup ?T' m = Some x"
  show "node_ok fs ?T' m x"
  proof (cases "m = n")
    case True
    with l have "x = c" by simp
    with True node_ok_link_new [OF assms] show ?thesis by simp
  next
    case False
    with l have "lookup T m = Some x" by simp
    from node_ok_link_old [OF G inf rp this] show ?thesis .
  qed
next
  show "root_ok ?T'"
    using Good_root [OF G] inf
    by (auto simp: root_ok_def inflight_def)
qed

subsection \<open>Creating an image keeps the invariant\<close>

lemma created_refl: "Good fs T \<Longrightarrow> lookup T n = Some r \<Longrightarrow> created fs T n r T"
  by (simp add: created_def)

lemma created_fresh_name:
  assumes cr: "created fs T0 p rp T2" and n: "lookup T0 n = None" and dir: "is_dir fs n"
    and d: "decl fs (python_version T0) n = Inr (p, pin)"
  shows "lookup T2 n = None"
proof (rule ccontr)
  assume "lookup T2 n \<noteq> None"
  then obtain y where y: "lookup T2 n = Some y" by auto
  from cr have G2: "Good fs T2" and p: "lookup T2 p = Some rp"
    and ver: "python_version T2 = python_version T0"
    by (simp_all add: created_def)
  from cr n y have path: "(rp, y) \<in> (parent_rel T2)\<^sup>*"
    by (simp add: created_def)
  from GoodD [OF G2 y] dir d ver p have par: "parent (heap T2 y) = Some rp"
    by (auto simp: node_ok_def)
  from GoodD [OF G2 y] obtain dd where "has_depth T2 y dd"
    by (auto simp: node_ok_def)
  from no_parent_cycle [OF this _ path] par show False
    by (simp add: parent_rel_def)
qed

lemma parent_rel_link: "parent (heap T c) = None \<Longrightarrow> parent_rel T \<subseteq> parent_rel (link T rp c)"
  by (auto simp: parent_rel_def)

lemma parent_rel_register [simp]: "parent_rel (register T n c) = parent_rel T"
  by (simp add: parent_rel_def)

lemma created_link:
  assumes G: "Good fs T0" and inf: "inflight T0 n c" and cr: "created fs T0 p rp T2"
    and dir: "is_dir fs n" and d: "decl fs (python_version T0) n = Inr (p, pin)"
    and pin: "pin \<longrightarrow> \<not> python_compat (heap T0 c)"
    and base: "nxt T \<le> c" "images T0 = images T" "python_version T0 = python_version T"
      "\<And>x. x \<noteq> c \<Longrightarrow> heap T0 x = heap T x" "nxt T \<le> nxt T0"
  shows "created fs T n c (register (link T2 rp c) n c)" (is "created fs T n c ?T'")
proof -
  from cr have G2: "Good fs T2" and p: "lookup T2 p = Some rp"
    and ver: "python_version T2 = python_version T0"
    and keep: "\<And>m x. lookup T0 m = Some x \<Longrightarrow> lookup T2 m = Some x"
    and nx: "nxt T0 \<le> nxt T2"
    and untouched: "\<And>x. x < nxt T0 \<Longrightarrow> (\<forall>m. lookup T0 m \<noteq> Some x) \<Longrightarrow> heap T2 x = heap T0 x"
    and new: "\<And>m y. lookup T0 m = None \<Longrightarrow> lookup T2 m = Some y \<Longrightarrow>
                nxt T0 \<le> y \<and> (rp, y) \<in> (parent_rel T2)\<^sup>*"
    by (simp_all add: created_def)
  have unreg0: "\<And>m. lookup T0 m \<noteq> Some c"
    using inflight_unregistered [OF G inf] .
  have c0: "c < nxt T0" and n0: "lookup T0 n = None" using inf by (simp_all add: inflight_def)
  have hc: "heap T2 c = heap T0 c" using untouched [OF c0] unreg0 by simp
  have n2: "lookup T2 n = None" using created_fresh_name [OF cr n0 dir d] .
  have inf2: "inflight T2 n c"
    using inf hc n2 nx by (simp add: inflight_def)
  have G': "Good fs ?T'"
    using Good_register_link [OF G2 inf2 p dir] d ver pin hc by simp
  have rpc: "rp \<noteq> c" using inflight_unregistered [OF G2 inf2, of p] p by auto
  have 1: "lookup ?T' n = Some c" by simp
  have 2: "\<forall>m x. lookup T m = Some x \<longrightarrow> lookup ?T' m = Some x"
    using keep base(2) n0 by auto
  have 3: "nxt T \<le> nxt ?T'" "python_version ?T' = python_version T"
    using base nx ver by simp_all
  have 4: "\<forall>x < nxt T. (\<forall>m. lookup T m \<noteq> Some x) \<longrightarrow> heap ?T' x = heap T x"
  proof (intro allI impI)
    fix x assume x: "x < nxt T" "\<forall>m. lookup T m \<noteq> Some x"
    then have xc: "x \<noteq> c" using base(1) by auto
    have "x \<noteq> rp"
    proof
      assume "x = rp"
      have "lookup T0 p = None"
      proof (cases "lookup T0 p")
        case (Some a)
        from keep [OF this] p have "a = rp" by simp
        with Some x(2) base(2) \<open>x = rp\<close> show ?thesis by auto
      qed simp
      from new [OF this p] x(1) base(5) \<open>x = rp\<close> show False by simp
    qed
    have "heap T2 x = heap T0 x"
      using untouched [of x] x base by auto
    moreover have "heap (link T2 rp c) x = heap T2 x"
      using xc \<open>x \<noteq> rp\<close>
      by (auto simp: link_def add_child_def add_parent_def upd_def)
    ultimately show "heap ?T' x = heap T x" using base(4) [OF xc] by simp
  qed
  have 5: "\<forall>m y. lookup T m = None \<longrightarrow> lookup ?T' m = Some y \<longrightarrow>
             nxt T \<le> y \<and> (c, y) \<in> (parent_rel ?T')\<^sup>*"
  proof (intro allI impI)
    fix m y assume m: "lookup T m = None" "lookup ?T' m = Some y"
    show "nxt T \<le> y \<and> (c, y) \<in> (parent_rel ?T')\<^sup>*"
    proof (cases "m = n")
      case True
      with m base(1) show ?thesis by simp
    next
      case False
      with m have y: "lookup T2 m = Some y" by simp
      from m(1) base(2) have "lookup T0 m = None" by simp
      from new [OF this y] have "nxt T0 \<le> y" "(rp, y) \<in> (parent_rel T2)\<^sup>*" by simp_all
      moreover have "parent_rel T2 \<subseteq> parent_rel ?T'"
        using parent_rel_link [of T2 c rp] inf2 by (simp add: inflight_def)
      moreover have "(c, rp) \<in> parent_rel ?T'" by (simp add: parent_rel_def)
      ultimately show ?thesis
        using base(5) by (meson converse_rtrancl_into_rtrancl le_trans rtrancl_mono subsetD)
    qed
  qed
  show ?thesis
    unfolding created_def using G' 1 2 3 4 5 by blast
qed

lemma created_root:
  assumes G: "Good fs T0" and inf: "inflight T0 n c" and nd: "\<not> is_dir fs n"
    and base: "nxt T \<le> c" "images T0 = images T" "python_version T0 = python_version T"
      "\<And>x. x \<noteq> c \<Longrightarrow> heap T0 x = heap T x" "nxt T \<le> nxt T0"
  shows "created fs T n c
           (register ((upd T0 c (\<lambda>i. i\<lparr>dirpath := None\<rparr>))\<lparr>root_image := Some c\<rparr>) n c)"
    (is "created fs T n c ?T'")
proof -
  have G': "Good fs ?T'" using Good_register_root [OF G inf nd] .
  have n0: "lookup T0 n = None" using inf by (simp add: inflight_def)
  have 2: "\<forall>m x. lookup T m = Some x \<longrightarrow> lookup ?T' m = Some x"
    using base(2) n0 by auto
  have 4: "\<forall>x < nxt T. (\<forall>m. lookup T m \<noteq> Some x) \<longrightarrow> heap ?T' x = heap T x"
    using base(1,4) by auto
  have 5: "\<forall>m y. lookup T m = None \<longrightarrow> lookup ?T' m = Some y \<longrightarrow>
             nxt T \<le> y \<and> (c, y) \<in> (parent_rel ?T')\<^sup>*"
    using base(1,2) by (auto split: if_splits)
  show ?thesis
    unfolding created_def using G' 2 4 5 base by simp
qed

lemma get_image_created_step:
  assumes IH: "\<And>T n r T'. Good fs T \<Longrightarrow> lookup T n = None \<Longrightarrow>
                 create_image k fs T n = (Inr r, T') \<Longrightarrow> created fs T n r T'"
    and G: "Good fs T" and g: "get_image k fs T n True = (Inr r, T')"
  shows "created fs T n r T'"
  using g
proof (cases rule: get_image_cases)
  case (found r')
  then show ?thesis using created_refl [OF G] by simp
next
  case create
  then show ?thesis using IH [OF G] by simp
next
  case missing
  then show ?thesis by simp
qed

lemma create_image_created_step:
  assumes IH: "\<And>T n r T'. Good fs T \<Longrightarrow> lookup T n = None \<Longrightarrow>
                 create_image k fs T n = (Inr r, T') \<Longrightarrow> created fs T n r T'"
    and G: "Good fs T" and n: "lookup T n = None"
    and c: "create_image (Suc k) fs T n = (Inr r, T')"
  shows "created fs T n r T'"
  using c
proof (cases rule: create_image_cases)
  case (failed e)
  then show ?thesis by simp
next
  case (created T2)
  define c where "c = nxt T"
  define T1 where "T1 = snd (new_Image T n)"
  have T1: "nxt T1 = Suc c" "images T1 = images T" "python_version T1 = python_version T"
    "root_image T1 = root_image T" "heap T1 = (heap T)(c := Image_init n)"
    by (simp_all add: T1_def c_def new_Image_def)
  have reg: "\<And>m x. lookup T m = Some x \<Longrightarrow> x \<noteq> c"
    using GoodD [OF G] by (auto simp: node_ok_def c_def)
  have G1: "Good fs T1"
  proof (rule Good_frame [OF G])
    show "root_ok T1" using Good_root [OF G] T1
      by (auto simp: root_ok_def c_def)
  qed (use T1 reg in \<open>auto simp: c_def\<close>)
  have inf1: "inflight T1 n c"
    using T1 n by (simp add: inflight_def Image_init_def)
  have r: "r = c" and T': "T' = register T2 n c"
    using created by (simp_all add: c_def register_def)
  from created(1) have a: "add_to_tree k fs T1 c = (Inr (), T2)"
    by (simp add: T1_def c_def)
  have dp: "dirpath (heap T1 c) = Some n" using inf1 by (simp add: inflight_def)
  from a show ?thesis
  proof (cases rule: add_to_tree_cases)
    case nopath
    then show ?thesis by simp
  next
    case (root d)
    with dp have nd: "\<not> is_dir fs n" by simp
    have "created fs T n c
           (register ((upd T1 c (\<lambda>i. i\<lparr>dirpath := None\<rparr>))\<lparr>root_image := Some c\<rparr>) n c)"
      by (rule created_root [OF G1 inf1 nd]) (simp_all add: T1 c_def)
    with root r T' show ?thesis by simp
  next
    case (unparsed d e)
    then show ?thesis by simp
  next
    case (linked d p T1')
    with dp have dir: "is_dir fs n" by simp
    from linked(3) parse_decl [OF dp, of fs] obtain pin where
      d: "decl fs (python_version T1) n = Inr (p, pin)"
      and T1': "T1' = (if pin then upd T1 c (\<lambda>i. i\<lparr>python_compat := False\<rparr>) else T1)"
      by (auto split: sum.splits prod.splits)
    have G1': "Good fs T1'"
    proof (rule Good_frame [OF G1])
      show "root_ok T1'" using Good_root [OF G1] T1'
        by (auto simp: root_ok_def)
    next
      fix m x assume "lookup T1 m = Some x"
      then have "x \<noteq> c" using reg [of m x] T1 by simp
      then show "heap T1' x = heap T1 x" using T1' by simp
    qed (simp_all add: T1')
    have inf1': "inflight T1' n c"
      using inf1 T1' by (simp add: inflight_def)
    have pin: "pin \<longrightarrow> \<not> python_compat (heap T1' c)" using T1' by simp
    have d': "decl fs (python_version T1') n = Inr (p, pin)" using d T1' by simp
    from linked(4) obtain rp T2a where
      g: "get_image k fs T1' p True = (Inr rp, T2a)" and T2: "T2 = link T2a rp c"
      by (cases rule: link_images_cases) (auto simp: resolve_def)
    have cr: "created fs T1' p rp T2a"
      using get_image_created_step [OF IH G1' g] .
    have "created fs T n c (register (link T2a rp c) n c)"
    proof (rule created_link [OF G1' inf1' cr dir d' pin])
      show "\<And>x. x \<noteq> c \<Longrightarrow> heap T1' x = heap T x"
        using T1' T1 by simp
    qed (simp_all add: T1' T1 c_def)
    with T2 T' r show ?thesis by simp
  qed
qed

lemma create_image_created:
  "Good fs T \<Longrightarrow> lookup T n = None \<Longrightarrow> create_image k fs T n = (Inr r, T') \<Longrightarrow>
     created fs T n r T'"
proof (induction k arbitrary: T n r T')
  case 0
  then show ?case by (simp add: create_image.simps)
next
  case (Suc k)
  show ?case
    by (rule create_image_created_step [OF Suc.IH Suc.prems]) assumption+
qed

lemma get_image_created:
  "Good fs T \<Longrightarrow> get_image k fs T n True = (Inr r, T') \<Longrightarrow> created fs T n r T'"
  by (rule get_image_created_step [OF create_image_created])

subsection \<open>The construction loop keeps the invariant\<close>

lemma decl_version:
  "decl fs v n = Inr (p, pin) \<Longrightarrow> \<exists>pin'. decl fs v' n = Inr (p, pin')"
  by (auto simp: decl_def split: sum.splits prod.splits option.splits list.splits)

lemma declared_iff: "(n, p) \<in> declared fs \<longleftrightarrow> is_dir fs n \<and> (\<exists>pin. decl fs v n = Inr (p, pin))"
  unfolding declared_def using decl_version [of fs None n p _ v] decl_version [of fs v n p _ None]
  by auto

lemma upd_id: "f (heap T r) = heap T r \<Longrightarrow> upd T r f = T"
  by (simp add: upd_def)

lemma compat_False_id: "\<not> python_compat i \<Longrightarrow> i\<lparr>python_compat := False\<rparr> = i"
  by (cases i) simp

lemma parent_id: "parent i = Some p \<Longrightarrow> i\<lparr>parent := Some p\<rparr> = i"
  by (cases i) simp

lemma link_id:
  assumes "parent (heap T c) = Some p" "c \<in> set (children (heap T p))"
    "\<not> python_compat (heap T p) \<longrightarrow> \<not> python_compat (heap T c)"
  shows "link T p c = T"
proof -
  have 1: "(if \<not> python_compat (heap T p)
            then upd T c (\<lambda>i. i\<lparr>python_compat := False\<rparr>) else T) = T"
    using assms(3) by (simp add: upd_id compat_False_id)
  have 2: "add_child T p c = T" using assms(2) by (simp add: add_child_def)
  have 3: "add_parent T c p = T" using assms(1) by (simp add: add_parent_def upd_id parent_id)
  show ?thesis unfolding link_def 1 2 3 ..
qed

lemma add_to_tree_registered:
  assumes G: "Good fs T" and l: "lookup T n = Some r"
  shows "add_to_tree k fs T r = (if is_dir fs n then (Inr (), T) else (Inl AttributeError, T))"
proof (cases "is_dir fs n")
  case False
  with GoodD [OF G l] have "dirpath (heap T r) = None" by (simp add: node_ok_def)
  with False show ?thesis by (simp add: add_to_tree.simps)
next
  case True
  with GoodD [OF G l] obtain p rp pin where p: "dirpath (heap T r) = Some n"
    "decl fs (python_version T) n = Inr (p, pin)" "lookup T p = Some rp"
    "parent (heap T r) = Some rp" "r \<in> set (children (heap T rp))"
    "pin \<longrightarrow> \<not> python_compat (heap T r)"
    "\<not> python_compat (heap T rp) \<longrightarrow> \<not> python_compat (heap T r)"
    by (auto simp: node_ok_def)
  have parse: "parse_parent_from_dockerfile fs T r = (Inr p, T)"
    using parse_decl [OF p(1), of fs] p(2,6) by (simp add: upd_id compat_False_id)
  have g: "get_image k fs T p True = (Inr rp, T)"
    using p(3) by (simp add: get_image.simps)
  have "link_images k fs T (Inl p) (Inr r) = (Inr (), link T rp r)"
    using g by (simp add: link_images.simps link_def Let_def)
  also have "link T rp r = T" using link_id [OF p(4,5,7)] .
  finally show ?thesis
    using True p(1) parse by (simp add: add_to_tree.simps)
qed

lemma Good_parent_declared:
  assumes G: "Good fs T" and l: "lookup T m = Some x" and xy: "(x, y) \<in> parent_rel T"
  shows "\<exists>q. lookup T q = Some y \<and> (m, q) \<in> declared fs"
  using GoodD [OF G l] xy declared_iff [of m _ fs "python_version T"]
  by (auto simp: node_ok_def parent_rel_def split: if_splits)

lemma Good_path_declared:
  assumes G: "Good fs T"
  shows "(x, y) \<in> (parent_rel T)\<^sup>* \<Longrightarrow> lookup T m = Some x \<Longrightarrow>
         \<exists>q. lookup T q = Some y \<and> (m, q) \<in> (declared fs)\<^sup>*"
proof (induction rule: rtrancl_induct)
  case base
  then show ?case by auto
next
  case (step y z)
  from step.IH [OF step.prems] obtain q where q: "lookup T q = Some y" "(m, q) \<in> (declared fs)\<^sup>*"
    by auto
  from Good_parent_declared [OF G q(1) step.hyps(2)] obtain q' where
    "lookup T q' = Some z" "(q, q') \<in> declared fs" by auto
  with q(2) show ?case by (meson rtrancl.rtrancl_into_rtrancl)
qed

lemma Good_closed:
  assumes G: "Good fs T"
  shows "(m, q) \<in> (declared fs)\<^sup>* \<Longrightarrow> m \<in> dom (lookup T) \<Longrightarrow> q \<in> dom (lookup T)"
proof (induction rule: rtrancl_induct)
  case base
  then show ?case by simp
next
  case (step q q')
  from step.IH [OF step.prems] obtain x where x: "lookup T q = Some x" by auto
  from GoodD [OF G x] step.hyps(2) declared_iff [of q q' fs "python_version T"]
  show ?case by (auto simp: node_ok_def)
qed

lemma created_dom:
  assumes cr: "created fs T n r T'"
  shows "dom (lookup T') = dom (lookup T) \<union> (declared fs)\<^sup>* `` {n}"
proof (intro set_eqI iffI)
  from cr have G': "Good fs T'" and n: "lookup T' n = Some r"
    and keep: "\<And>m x. lookup T m = Some x \<Longrightarrow> lookup T' m = Some x"
    and new: "\<And>m y. lookup T m = None \<Longrightarrow> lookup T' m = Some y \<Longrightarrow>
                (r, y) \<in> (parent_rel T')\<^sup>*"
    by (simp_all add: created_def)
  {
    fix m assume "m \<in> dom (lookup T')"
    then obtain y where y: "lookup T' m = Some y" by auto
    show "m \<in> dom (lookup T) \<union> (declared fs)\<^sup>* `` {n}"
    proof (cases "lookup T m")
      case None
      from Good_path_declared [OF G' new [OF None y] n] obtain q where
        q: "lookup T' q = Some y" "(n, q) \<in> (declared fs)\<^sup>*" by auto
      from Good_name [OF G' q(1)] Good_name [OF G' y] have "q = m" by simp
      with q(2) show ?thesis by auto
    next
      case (Some a)
      then show ?thesis by auto
    qed
  }
  {
    fix m assume "m \<in> dom (lookup T) \<union> (declared fs)\<^sup>* `` {n}"
    then show "m \<in> dom (lookup T')"
    proof
      assume "m \<in> dom (lookup T)"
      then show ?thesis using keep by auto
    next
      assume "m \<in> (declared fs)\<^sup>* `` {n}"
      then show ?thesis using Good_closed [OF G', of n m] n by auto
    qed
  }
qed

lemma create_tree_Good:
  "Good fs T \<Longrightarrow> create_tree k fs T ns = (Inr (), T') \<Longrightarrow>
     Good fs T' \<and> python_version T' = python_version T \<and>
     dom (lookup T') = dom (lookup T) \<union> (declared fs)\<^sup>* `` set ns"
proof (induction ns arbitrary: T)
  case Nil
  then show ?case by simp
next
  case (Cons n ns)
  from Cons.prems(2) show ?case
  proof (cases rule: create_tree_cases)
    case (nolookup e)
    then show ?thesis by simp
  next
    case (noadd r T1 e)
    then show ?thesis by simp
  next
    case (continue r T1 T2)
    from get_image_created [OF Cons.prems(1) continue(1)] have cr: "created fs T n r T1" .
    then have G1: "Good fs T1" and l: "lookup T1 n = Some r"
      and ver: "python_version T1 = python_version T"
      by (simp_all add: created_def)
    from add_to_tree_registered [OF G1 l, of k] continue(2) have "T2 = T1"
      by (simp split: if_splits)
    with Cons.IH [OF G1] continue(3) have
      "Good fs T'" "python_version T' = python_version T1"
      "dom (lookup T') = dom (lookup T1) \<union> (declared fs)\<^sup>* `` set ns"
      by simp_all
    with created_dom [OF cr] ver show ?thesis by auto
  qed
qed

lemma Good_empty: "Good fs (ImageTree_empty ver)"
  by (simp add: Good_def root_ok_def ImageTree_empty_def)

lemma constructed_Good:
  assumes "ImageTree_init k fs ver ns = (Inr (), T)"
  shows "Good fs T" "python_version T = ver" "dom (lookup T) = (declared fs)\<^sup>* `` set ns"
  using create_tree_Good [OF Good_empty, of k fs ver ns T] assms
  by (simp_all add: ImageTree_init_def ImageTree_empty_def)

subsection \<open>Failed creations\<close>

lemma alloc_Good:
  assumes G: "Good fs T" and n: "lookup T n = None"
  shows "Good fs (snd (new_Image T n))" "inflight (snd (new_Image T n)) n (nxt T)"
proof -
  have reg: "\<And>m x. lookup T m = Some x \<Longrightarrow> x \<noteq> nxt T"
    using GoodD [OF G] by (auto simp: node_ok_def)
  show "Good fs (snd (new_Image T n))"
  proof (rule Good_frame [OF G])
    show "root_ok (snd (new_Image T n))" using Good_root [OF G]
      by (auto simp: root_ok_def new_Image_def)
  qed (use reg in \<open>auto simp: new_Image_def\<close>)
  show "inflight (snd (new_Image T n)) n (nxt T)"
    using n by (simp add: inflight_def Image_init_def new_Image_def)
qed

lemma parse_Good:
  assumes G: "Good fs T" and inf: "inflight T n c"
  shows "Good fs (snd (parse_parent_from_dockerfile fs T c))"
proof -
  have unreg: "\<And>m. lookup T m \<noteq> Some c"
    using inflight_unregistered [OF G inf] .
  from parse_state [of fs T c] show ?thesis
  proof
    assume "snd (parse_parent_from_dockerfile fs T c) = T"
    with G show ?thesis by simp
  next
    assume s: "snd (parse_parent_from_dockerfile fs T c) =
                 upd T c (\<lambda>i. i\<lparr>python_compat := False\<rparr>)"
    have "Good fs (upd T c (\<lambda>i. i\<lparr>python_compat := False\<rparr>))"
    proof (rule Good_frame [OF G])
      show "root_ok (upd T c (\<lambda>i. i\<lparr>python_compat := False\<rparr>))"
        using Good_root [OF G] by (auto simp: root_ok_def)
    next
      fix m x assume "lookup T m = Some x"
      then show "heap (upd T c (\<lambda>i. i\<lparr>python_compat := False\<rparr>)) x = heap T x"
        using unreg [of m] by auto
    qed simp_all
    with s show ?thesis by simp
  qed
qed

lemma parse_inflight:
  "inflight T n c \<Longrightarrow> inflight (snd (parse_parent_from_dockerfile fs T c)) n c"
  using parse_state [of fs T c] by (auto simp: inflight_def)

lemma create_image_Good:
  "Good fs T \<Longrightarrow> lookup T n = None \<Longrightarrow> Good fs (snd (create_image k fs T n))"
proof (induction k arbitrary: T n)
  case 0
  then show ?case by (simp add: create_image.simps)
next
  case (Suc k)
  obtain res T' where c: "create_image (Suc k) fs T n = (res, T')"
    by (cases "create_image (Suc k) fs T n")
  have "Good fs T'"
  proof (cases res)
    case (Inr r)
    with c have "create_image (Suc k) fs T n = (Inr r, T')" by simp
    from create_image_created [OF Suc.prems this] show ?thesis
      by (simp add: created_def)
  next
    case (Inl e)
    note a = alloc_Good [OF Suc.prems]
    from c show ?thesis
    proof (cases rule: create_image_cases)
      case (failed e')
      from failed(1) show ?thesis
      proof (cases rule: add_to_tree_cases)
        case nopath
        with a show ?thesis by simp
      next
        case (root d)
        then show ?thesis by simp
      next
        case (unparsed d e'')
        with parse_Good [OF a] show ?thesis by simp
      next
        case (linked d p T1)
        have G1: "Good fs T1" and inf1: "inflight T1 n (nxt T)"
          using parse_Good [OF a] parse_inflight [OF a(2), of fs] linked(3) by simp_all
        from linked(4) show ?thesis
        proof (cases rule: link_images_cases)
          case (noparent e3)
          then have g: "get_image k fs T1 p True = (Inl e3, T')" by (simp add: resolve_def)
          then show ?thesis
          proof (cases rule: get_image_cases)
            case (found r)
            then show ?thesis by simp
          next
            case create
            with Suc.IH [OF G1, of p] show ?thesis by simp
          next
            case missing
            then show ?thesis by simp
          qed
        next
          case (nochild pr T2 e3)
          then show ?thesis by (simp add: resolve_def)
        next
          case (linked pr T2 cr T3)
          then show ?thesis by simp
        qed
      qed
    next
      case (created T2)
      with Inl show ?thesis by simp
    qed
  qed
  with c show ?case by simp
qed

lemma get_image_Good: "Good fs T \<Longrightarrow> Good fs (snd (get_image k fs T n b))"
proof -
  assume G: "Good fs T"
  obtain res T' where g: "get_image k fs T n b = (res, T')"
    by (cases "get_image k fs T n b")
  from g have "Good fs T'"
    by (cases rule: get_image_cases) (use G create_image_Good [OF G, of n k] in auto)
  with g show ?thesis by simp
qed

lemma get_image_version: "python_version (snd (get_image k fs T n b)) = python_version T"
  using get_image_mono [of T k fs n b] by (simp add: compat_mono_def)

lemma reachable_Good: "reachable fs ver T \<Longrightarrow> Good fs T \<and> python_version T = ver"
proof (induction rule: reachable.induct)
  case init
  then show ?case by (simp add: Good_empty) (simp add: ImageTree_empty_def)
next
  case (lookup_or_create T k n b res T')
  then show ?case
    using get_image_Good [of fs T k n b] get_image_version [of k fs T n b] by simp
next
  case (register T n r k res T')
  then show ?case
    using add_to_tree_registered [of fs T n r k] by (simp split: if_splits)
qed

lemma create_tree_reachable:
  "reachable fs ver T \<Longrightarrow> reachable fs ver (snd (create_tree k fs T ns))"
proof (induction ns arbitrary: T)
  case Nil
  then show ?case by simp
next
  case (Cons n ns)
  obtain res T' where c: "create_tree k fs T (n # ns) = (res, T')"
    by (cases "create_tree k fs T (n # ns)")
  from c have "reachable fs ver T'"
  proof (cases rule: create_tree_cases)
    case (nolookup e)
    with Cons.prems show ?thesis by (auto intro: reachable.lookup_or_create)
  next
    case (noadd r T1 e)
    have r1: "reachable fs ver T1"
      using Cons.prems noadd(1) by (rule reachable.lookup_or_create)
    from reachable_Good [OF Cons.prems] get_image_created [OF _ noadd(1)]
    have "lookup T1 n = Some r" by (simp add: created_def)
    from reachable.register [OF r1 this noadd(2)] show ?thesis .
  next
    case (continue r T1 T2)
    have r1: "reachable fs ver T1"
      using Cons.prems continue(1) by (rule reachable.lookup_or_create)
    from reachable_Good [OF Cons.prems] get_image_created [OF _ continue(1)]
    have "lookup T1 n = Some r" by (simp add: created_def)
    from reachable.register [OF r1 this continue(2)] have "reachable fs ver T2" .
    from Cons.IH [OF this] continue(3) show ?thesis by simp
  qed
  with c show ?case by simp
qed

lemma constructed_reachable: "reachable fs ver (snd (ImageTree_init k fs ver ns))"
  unfolding ImageTree_init_def by (rule create_tree_reachable) (rule reachable.init)

subsection \<open>Incompatibility reaches every descendant\<close>

lemma Good_child_compat:
  assumes G: "Good fs T" and l: "lookup T n = Some r" and c: "(r, c) \<in> child_rel T"
    and inc: "\<not> python_compat (heap T r)"
  shows "(\<exists>m. lookup T m = Some c) \<and> \<not> python_compat (heap T c)"
proof -
  from GoodD [OF G l] c obtain m where m: "lookup T m = Some c" "parent (heap T c) = Some r"
    by (auto simp: node_ok_def child_rel_def)
  from GoodD [OF G m(1)] m(2) inc have "\<not> python_compat (heap T c)"
    by (auto simp: node_ok_def split: if_splits)
  with m(1) show ?thesis by auto
qed

lemma Good_descendant_compat:
  assumes G: "Good fs T"
  shows "(r, c) \<in> (child_rel T)\<^sup>* \<Longrightarrow> lookup T n = Some r \<Longrightarrow>
         \<not> python_compat (heap T r) \<Longrightarrow>
         (\<exists>m. lookup T m = Some c) \<and> \<not> python_compat (heap T c)"
proof (induction rule: rtrancl_induct)
  case base
  then show ?case by auto
next
  case (step y z)
  from step.IH [OF step.prems] obtain m where "lookup T m = Some y" "\<not> python_compat (heap T y)"
    by auto
  from Good_child_compat [OF G this(1) step.hyps(2) this(2)] show ?case .
qed

text \<open>
  Claim C3, for the states that registrations reach. From the empty tree, by any sequence of
  get-or-create lookups and registrations of names, in any order and whether they return
  or raise: when an image of the tree is incompatible, so is every image reachable from
  it through \<open>children\<close>, which are the images \<open>descendants\<close> lists.
\<close>

theorem incompatible_descendants:
  assumes "reachable fs ver T" and "map_of (images T) n = Some r"
    and "\<not> python_compat (heap T r)"
  shows "(\<forall>c. (r, c) \<in> (child_rel T)\<^sup>* \<longrightarrow> \<not> python_compat (heap T c)) \<and>
         (\<forall>k ds. descendants k T r = Inr ds \<longrightarrow> (\<forall>c \<in> set ds. \<not> python_compat (heap T c)))"
proof -
  from reachable_Good [OF assms(1)] have G: "Good fs T" by simp
  have 1: "\<not> python_compat (heap T c)" if "(r, c) \<in> (child_rel T)\<^sup>*" for c
    using Good_descendant_compat [OF G that assms(2,3)] by simp
  moreover have "\<not> python_compat (heap T c)" if "descendants k T r = Inr ds" "c \<in> set ds"
    for k ds c
    using descendants_set [OF that(1)] that(2) 1 by auto
  ultimately show ?thesis by blast
qed

subsection \<open>The shape of a constructed tree\<close>

lemma lookup_inj:
  assumes G: "Good fs T" and "lookup T m = Some x" "lookup T m' = Some x"
  shows "m = m'"
  using Good_name [OF G assms(2)] Good_name [OF G assms(3)] by simp

lemma Good_parent_of:
  assumes G: "Good fs T"
  shows "parent_of T n = (if n \<in> dom (lookup T) then
            (if is_dir fs n then (case decl fs None n of Inr (p, _) \<Rightarrow> Some p | Inl _ \<Rightarrow> None)
             else None) else None)"
proof (cases "lookup T n")
  case None
  then show ?thesis by (auto simp: parent_of_def)
next
  case (Some r)
  note ok = GoodD [OF G Some]
  show ?thesis
  proof (cases "is_dir fs n")
    case True
    with ok obtain p rp pin where p: "decl fs (python_version T) n = Inr (p, pin)"
      "lookup T p = Some rp" "parent (heap T r) = Some rp"
      by (auto simp: node_ok_def)
    from decl_version [OF p(1), of None] obtain pin' where "decl fs None n = Inr (p, pin')"
      by auto
    with True Some p Good_name [OF G p(2)] show ?thesis
      by (auto simp: parent_of_def)
  next
    case False
    with ok Some show ?thesis by (auto simp: parent_of_def node_ok_def)
  qed
qed

lemma Good_children_of:
  assumes G: "Good fs T"
  shows "children_of T n = {m \<in> dom (lookup T). (m, n) \<in> declared fs \<and> n \<in> dom (lookup T)}"
proof (cases "lookup T n")
  case None
  then show ?thesis by (auto simp: children_of_def)
next
  case (Some r)
  note ok = GoodD [OF G Some]
  show ?thesis
  proof (intro set_eqI iffI)
    fix m assume "m \<in> children_of T n"
    then obtain c where c: "c \<in> set (children (heap T r))" "m = name (heap T c)"
      using Some by (auto simp: children_of_def)
    with ok obtain m' where m': "lookup T m' = Some c" "parent (heap T c) = Some r"
      by (auto simp: node_ok_def)
    from Good_name [OF G m'(1)] c(2) have mm: "m' = m" by simp
    from Good_parent_declared [OF G m'(1), of r] m'(2) obtain q where
      q: "lookup T q = Some r" "(m', q) \<in> declared fs"
      by (auto simp: parent_rel_def)
    from lookup_inj [OF G q(1) Some] q(2) mm m'(1) Some
    show "m \<in> {m \<in> dom (lookup T). (m, n) \<in> declared fs \<and> n \<in> dom (lookup T)}"
      by auto
  next
    fix m assume "m \<in> {m \<in> dom (lookup T). (m, n) \<in> declared fs \<and> n \<in> dom (lookup T)}"
    then obtain x where x: "lookup T m = Some x" "(m, n) \<in> declared fs" by auto
    from GoodD [OF G x(1)] x(2) declared_iff [of m n fs "python_version T"] Some
    have "x \<in> set (children (heap T r))"
      by (auto simp: node_ok_def)
    with Good_name [OF G x(1)] Some show "m \<in> children_of T n"
      by (auto simp: children_of_def)
  qed
qed

lemma get_image_registered: "lookup T n = Some r \<Longrightarrow> get_image k fs T n b = (Inr r, T)"
  by (simp add: get_image.simps)

lemma register_again:
  assumes G: "Good fs T" and n: "n \<in> dom (lookup T)"
  shows "snd (create_tree k fs T [n]) = T"
proof -
  from n obtain r where r: "lookup T n = Some r" by auto
  show ?thesis
    using get_image_registered [OF r, of k fs True] add_to_tree_registered [OF G r, of k]
    by simp
qed

subsection \<open>Malformed definitions\<close>

lemma decl_malformed:
  assumes "fs n = Dir (Some ls)" "malformed ls"
  shows "decl fs ver n = Inl StopIteration"
  using assms by (simp add: decl_def read_dockerfile_def malformed_parent_reference)

text \<open>
  Claim C8. When the definition file of an image has no line that starts with \<open>FROM\<close>,
  or its base-image reference starts with \<open>$\<close> and no line starts with the matching
  \<open>ARG name=\<close>, parsing raises \<open>StopIteration\<close> and changes nothing; \<open>add_to_tree\<close>
  passes the error on without linking; creating the image leaves only the new, unlinked
  and unregistered object behind; and a construction that discovers the file fails.
\<close>

theorem malformed_definition_fatal:
  assumes "fs n = Dir (Some ls)" and "malformed ls"
  shows "(\<forall>T self k. dirpath (heap T self) = Some n \<longrightarrow>
            parse_parent_from_dockerfile fs T self = (Inl StopIteration, T) \<and>
            add_to_tree k fs T self = (Inl StopIteration, T)) \<and>
         (\<forall>T k. create_image (Suc k) fs T n = (Inl StopIteration, snd (new_Image T n))) \<and>
         (\<forall>k ver ns. n \<in> set ns \<longrightarrow> (\<exists>e T. ImageTree_init k fs ver ns = (Inl e, T)))"
proof (intro conjI allI impI)
  fix T :: ImageTree and self k assume d: "dirpath (heap T self) = Some n"
  have r: "read_dockerfile fs n = Inr ls" using assms(1) by (simp add: read_dockerfile_def)
  show "parse_parent_from_dockerfile fs T self = (Inl StopIteration, T)"
    using parse_malformed [OF d r assms(2)] .
  show "add_to_tree k fs T self = (Inl StopIteration, T)"
    using d assms by (rule add_to_tree_malformed)
next
  fix T :: ImageTree and k
  show "create_image (Suc k) fs T n = (Inl StopIteration, snd (new_Image T n))"
    using assms by (rule create_image_malformed)
next
  fix k ver ns assume n: "n \<in> set ns"
  obtain res T where i: "ImageTree_init k fs ver ns = (res, T)"
    by (cases "ImageTree_init k fs ver ns")
  have "res \<noteq> Inr ()"
  proof
    assume "res = Inr ()"
    with i have c: "ImageTree_init k fs ver ns = (Inr (), T)" by simp
    from constructed_Good(3) [OF c] n obtain r where r: "lookup T n = Some r" by auto
    have "decl fs (python_version T) n = Inl StopIteration"
      using assms by (rule decl_malformed)
    with GoodD [OF constructed_Good(1) [OF c] r] assms(1)
    show False by (auto simp: node_ok_def is_dir_def)
  qed
  then obtain e where "res = Inl e" by (cases res) auto
  with i show "\<exists>e T. ImageTree_init k fs ver ns = (Inl e, T)" by blast
qed

subsection \<open>The ancestor chain\<close>

lemma trancl_parent_step:
  assumes "(r, \<rho>) \<in> (parent_rel T)\<^sup>+" "parent (heap T r) = Some p"
  shows "p = \<rho> \<or> (p, \<rho>) \<in> (parent_rel T)\<^sup>+"
  using assms by (auto simp: parent_rel_def elim: converse_tranclE)

lemma ancestors_below_root:
  assumes root: "root_image T = Some \<rho>" "parent (heap T \<rho>) = None"
  shows "(r, \<rho>) \<in> (parent_rel T)\<^sup>+ \<Longrightarrow> has_depth T r d \<Longrightarrow> d \<le> k \<Longrightarrow>
         \<exists>xs. ancestors k T r = Inr xs \<and> length xs = d \<and> last xs = r \<and>
              parent (heap T (hd xs)) = Some \<rho> \<and>
              (\<forall>i. Suc i < length xs \<longrightarrow> parent (heap T (xs ! Suc i)) = Some (xs ! i))"
proof (induction d arbitrary: r k)
  case 0
  from 0(1) obtain y where "(r, y) \<in> parent_rel T" by (auto elim: converse_tranclE)
  with 0(2) show ?case by (simp add: parent_rel_def)
next
  case (Suc d)
  from Suc.prems(2) obtain p where p: "parent (heap T r) = Some p" "has_depth T p d"
    by (auto split: option.splits)
  from Suc.prems(3) obtain k' where k: "k = Suc k'" "d \<le> k'" by (cases k) auto
  from trancl_parent_step [OF Suc.prems(1) p(1)] show ?case
  proof
    assume "p = \<rho>"
    with p(2) root(2) have "d = 0" using has_depth_fun [of T \<rho> d 0] by simp
    with \<open>p = \<rho>\<close> p(1) root(1) k show ?thesis by simp
  next
    assume below: "(p, \<rho>) \<in> (parent_rel T)\<^sup>+"
    then obtain y where "(p, y) \<in> parent_rel T" by (auto elim: converse_tranclE)
    with root(2) have "p \<noteq> \<rho>" by (auto simp: parent_rel_def)
    from Suc.IH [OF below p(2) k(2)] obtain ys where ys: "ancestors k' T p = Inr ys"
      "length ys = d" "last ys = p" "parent (heap T (hd ys)) = Some \<rho>"
      "\<forall>i. Suc i < length ys \<longrightarrow> parent (heap T (ys ! Suc i)) = Some (ys ! i)"
      by auto
    have ne: "ys \<noteq> []"
    proof
      assume "ys = []"
      with ys(2) p(2) have "parent (heap T p) = None" by simp
      with \<open>(p, y) \<in> parent_rel T\<close> show False by (simp add: parent_rel_def)
    qed
    have a: "ancestors k T r = Inr (ys @ [r])"
      using k p(1) root(1) \<open>p \<noteq> \<rho>\<close> ys(1) by simp
    have chain: "parent (heap T ((ys @ [r]) ! Suc i)) = Some ((ys @ [r]) ! i)"
      if "Suc i < length (ys @ [r])" for i
    proof (cases "Suc i < length ys")
      case True
      with ys(5) show ?thesis by (simp add: nth_append)
    next
      case False
      with that have i: "Suc i = length ys" by simp
      then have "(ys @ [r]) ! Suc i = r" by simp
      moreover from i have "i = length ys - 1" by simp
      then have "(ys @ [r]) ! i = last ys"
        using ne i by (simp add: nth_append last_conv_nth)
      ultimately show ?thesis using p(1) ys(3) by simp
    qed
    show ?thesis
      using a ys(2,4) ne chain by (intro exI [of _ "ys @ [r]"]) simp
  qed
qed

text \<open>
  Claim C6, for the images below the root image. In a constructed tree, for an image whose
  parent chain leads to the root image, \<open>ancestors\<close> returns (given as many calls as the
  tree has images) the chain from the root image's child down to the image itself: its
  last element is the image, the parent of its first element is the root image, each
  element is the parent of the next, and its length is the depth of the image.
\<close>

theorem ancestors_chain:
  assumes "ImageTree_init k0 fs ver ns = (Inr (), T)"
    and "map_of (images T) n = Some r"
    and "root_image T = Some \<rho>"
    and "(r, \<rho>) \<in> (parent_rel T)\<^sup>+"
    and "length (images T) \<le> k"
  shows "\<exists>xs. ancestors k T r = Inr xs \<and> xs \<noteq> [] \<and> last xs = r \<and>
              parent (heap T (hd xs)) = Some \<rho> \<and>
              (\<forall>i. Suc i < length xs \<longrightarrow> parent (heap T (xs ! Suc i)) = Some (xs ! i)) \<and>
              has_depth T r (length xs)"
proof -
  note G = constructed_Good(1) [OF assms(1)]
  from Good_root [OF G] assms(3) have root: "parent (heap T \<rho>) = None"
    by (simp add: root_ok_def)
  from GoodD [OF G assms(2)] obtain d where d: "d < length (images T)" "has_depth T r d"
    by (auto simp: node_ok_def)
  from d(1) assms(5) have "d \<le> k" by simp
  from ancestors_below_root [OF assms(3) root assms(4) d(2) this] obtain xs where
    xs: "ancestors k T r = Inr xs" "length xs = d" "last xs = r"
      "parent (heap T (hd xs)) = Some \<rho>"
      "\<forall>i. Suc i < length xs \<longrightarrow> parent (heap T (xs ! Suc i)) = Some (xs ! i)"
    by auto
  have "xs \<noteq> []"
  proof
    assume "xs = []"
    with xs(2) d(2) have "parent (heap T r) = None" by simp
    with assms(4) show False by (auto simp: parent_rel_def elim: converse_tranclE)
  qed
  with xs d(2) show ?thesis by auto
qed

subsection \<open>The rebuild query on a constructed tree\<close>

lemma extend_descendants_total:
  "(\<And>c. c \<in> set cs \<Longrightarrow> \<exists>ds. descendants k T c = Inr ds) \<Longrightarrow>
     \<exists>ds. extend_descendants k T cs = Inr ds"
proof (induction cs)
  case Nil
  then show ?case by simp
next
  case (Cons c cs)
  from Cons.prems [of c] obtain d1 where "descendants k T c = Inr d1" by auto
  moreover from Cons.IH Cons.prems obtain d2 where "extend_descendants k T cs = Inr d2"
    by auto
  ultimately show ?case by simp
qed

lemma Good_child_depth:
  assumes G: "Good fs T" and l: "lookup T n = Some r" and c: "(r, c) \<in> child_rel T"
  shows "(\<exists>m. lookup T m = Some c) \<and> (c, r) \<in> parent_rel T"
  using GoodD [OF G l] c by (auto simp: node_ok_def child_rel_def parent_rel_def)

lemma descendants_total:
  assumes G: "Good fs T"
  shows "lookup T n = Some r \<Longrightarrow> has_depth T r d \<Longrightarrow> length (images T) \<le> k + d \<Longrightarrow>
         \<exists>ds. descendants k T r = Inr ds"
proof (induction k arbitrary: n r d)
  case 0
  from GoodD [OF G 0(1)] obtain d' where "d' < length (images T)" "has_depth T r d'"
    by (auto simp: node_ok_def)
  with has_depth_fun [OF 0(2), of d'] 0(3) show ?case by simp
next
  case (Suc k)
  have "\<exists>ds. descendants k T c = Inr ds" if "c \<in> set (children (heap T r))" for c
  proof -
    from that have "(r, c) \<in> child_rel T" by (simp add: child_rel_def)
    from Good_child_depth [OF G Suc.prems(1) this] obtain m where
      m: "lookup T m = Some c" "parent (heap T c) = Some r"
      by (auto simp: parent_rel_def)
    from m(2) Suc.prems(2) have "has_depth T c (Suc d)" by simp
    from Suc.IH [OF m(1) this] Suc.prems(3) show ?thesis by simp
  qed
  from extend_descendants_total [of "children (heap T r)" k T, OF this]
  obtain ds where "extend_descendants k T (children (heap T r)) = Inr ds" by auto
  then show ?case by simp
qed

lemma dependent_imgs_total:
  assumes G: "Good fs T" and k: "length (images T) \<le> k"
  shows "set ns \<subseteq> dom (lookup T) \<Longrightarrow> \<exists>deps. dependent_imgs k fs T ns = (Inr deps, T)"
proof (induction ns)
  case Nil
  then show ?case by simp
next
  case (Cons n ns)
  from Cons.prems obtain r where r: "lookup T n = Some r" by auto
  from GoodD [OF G r] obtain d where "has_depth T r d" by (auto simp: node_ok_def)
  from descendants_total [OF G r this, of k] k obtain ds where ds: "descendants k T r = Inr ds"
    by (auto simp: trans_le_add1)
  from Cons obtain others where "dependent_imgs k fs T ns = (Inr others, T)" by auto
  with r ds show ?case by (simp add: get_image_no_create)
qed

lemma Good_descendant_path:
  assumes G: "Good fs T"
  shows "(r, x) \<in> (child_rel T)\<^sup>* \<Longrightarrow> lookup T n = Some r \<Longrightarrow>
         (\<exists>m. lookup T m = Some x) \<and> (x, r) \<in> (parent_rel T)\<^sup>*"
proof (induction rule: rtrancl_induct)
  case base
  then show ?case by auto
next
  case (step y z)
  from step.IH [OF step.prems] obtain m where m: "lookup T m = Some y"
    and p: "(y, r) \<in> (parent_rel T)\<^sup>*" by auto
  from Good_child_depth [OF G m step.hyps(2)] p show ?case
    by (meson converse_rtrancl_into_rtrancl)
qed

lemma Good_proper_descendant_depth:
  assumes G: "Good fs T"
  shows "(a, b) \<in> (child_rel T)\<^sup>+ \<Longrightarrow> lookup T n = Some a \<Longrightarrow> has_depth T a da \<Longrightarrow>
         \<exists>db > da. has_depth T b db \<and> (\<exists>m. lookup T m = Some b)"
proof (induction arbitrary: rule: trancl_induct)
  case (base y)
  from Good_child_depth [OF G base(2) base(1)] base(3) show ?case
    by (auto simp: parent_rel_def intro!: exI [of _ "Suc da"])
next
  case (step y z)
  from step.IH [OF step.prems] obtain dy m where dy: "da < dy" "has_depth T y dy"
    "lookup T m = Some y" by auto
  from Good_child_depth [OF G dy(3) step.hyps(2)] dy(1,2) show ?case
    by (auto simp: parent_rel_def intro!: exI [of _ "Suc dy"])
qed

lemma sort_keys_total:
  "(\<And>x. x \<in> set us \<Longrightarrow> \<exists>ancs. ancestors k T x = Inr ancs) \<Longrightarrow>
     sort_keys k T us = Inr (map (ancestors_length k T) us)"
proof (induction us)
  case Nil
  then show ?case by simp
next
  case (Cons u us)
  from Cons.prems [of u] obtain ancs where "ancestors k T u = Inr ancs" by auto
  moreover from Cons.IH Cons.prems have "sort_keys k T us = Inr (map (ancestors_length k T) us)"
    by auto
  ultimately show ?case by (simp add: ancestors_length_def)
qed

lemma insort_key_zip:
  "insort_key snd (x, f x) (map (\<lambda>y. (y, f y)) ys) = map (\<lambda>y. (y, f y)) (insort_key f x ys)"
  by (induction ys) auto

lemma sort_key_zip:
  "map fst (sort_key snd (zip us (map f us))) = sort_key f us"
proof -
  have "sort_key snd (zip us (map f us)) = map (\<lambda>y. (y, f y)) (sort_key f us)"
    by (induction us) (simp_all add: insort_key_zip)
  then show ?thesis by (simp add: comp_def)
qed

lemma sorted_distinct_order:
  assumes "sorted (map f s)" "i < length s" "j < length s" "f (s ! i) < f (s ! j)"
  shows "i < j"
proof (rule ccontr)
  assume "\<not> i < j"
  then have "j \<le> i" by simp
  with assms(1,2) have "map f s ! j \<le> map f s ! i"
    by (intro sorted_nth_mono) simp_all
  with assms(2,3,4) show False by simp
qed

text \<open>
  Claim C1, for edited images below the root image. In a constructed tree, when every
  edited name is in the dictionary and denotes an image whose parent chain leads to the
  root image, \<open>determine_rebuilds\<close> returns (given as many calls as the tree has images,
  and whatever order \<open>list(set(...))\<close> produces): the collected images are exactly the
  images reachable through \<open>children\<close> from the edited ones; the result names each
  compatible one of them once, in ascending order of the length of its ancestor chain,
  which is its depth, ties in the order of the set; and an image comes before each of its
  descendants.
\<close>

theorem determine_rebuilds_sorted_descendants:
  assumes "ImageTree_init k0 fs ver ns = (Inr (), T)"
    and "\<forall>xs. distinct (los xs) \<and> set (los xs) = set xs"
    and "\<forall>n \<in> set edited. \<exists>r. map_of (images T) n = Some r \<and> (r, \<rho>) \<in> (parent_rel T)\<^sup>+"
    and "root_image T = Some \<rho>"
    and "length (images T) \<le> k"
  shows "\<exists>deps s.
           dependent_imgs k fs T edited = (Inr deps, T) \<and>
           set deps = (\<Union>n\<in>set edited. (child_rel T)\<^sup>* `` {the (map_of (images T) n)}) \<and>
           s = filter (\<lambda>x. python_compat (heap T x))
                 (sort_key (ancestors_length k T) (los deps)) \<and>
           determine_rebuilds los k fs T edited = (Inr (map (\<lambda>x. name (heap T x)) s), T) \<and>
           distinct s \<and> set s = {x \<in> set deps. python_compat (heap T x)} \<and>
           sorted (map (ancestors_length k T) s) \<and>
           (\<forall>x \<in> set s. has_depth T x (ancestors_length k T x)) \<and>
           distinct (map (\<lambda>x. name (heap T x)) s) \<and>
           (\<forall>i j. i < length s \<longrightarrow> j < length s \<longrightarrow>
                  (s ! i, s ! j) \<in> (child_rel T)\<^sup>+ \<longrightarrow> i < j)"
proof -
  note G = constructed_Good(1) [OF assms(1)]
  let ?al = "ancestors_length k T"
  from Good_root [OF G] assms(4) have root: "parent (heap T \<rho>) = None"
    by (simp add: root_ok_def)
  have dom: "set edited \<subseteq> dom (lookup T)" using assms(3) by auto
  from dependent_imgs_total [OF G assms(5) dom] obtain deps where
    deps: "dependent_imgs k fs T edited = (Inr deps, T)" by auto
  from dependent_imgs_set [OF deps] have sd:
    "set deps = (\<Union>n\<in>set edited. (child_rel T)\<^sup>* `` {the (lookup T n)})" by simp
  have below: "(\<exists>m. lookup T m = Some x) \<and> (x, \<rho>) \<in> (parent_rel T)\<^sup>+" if "x \<in> set deps" for x
  proof -
    from that sd obtain n where n: "n \<in> set edited" "(the (lookup T n), x) \<in> (child_rel T)\<^sup>*"
      by auto
    from assms(3) n(1) obtain r where r: "lookup T n = Some r" "(r, \<rho>) \<in> (parent_rel T)\<^sup>+"
      by auto
    from Good_descendant_path [OF G _ r(1), of x] n(2) r(1)
    have "\<exists>m. lookup T m = Some x" "(x, r) \<in> (parent_rel T)\<^sup>*" by simp_all
    with r(2) show ?thesis by (meson rtrancl_trancl_trancl)
  qed
  have anc: "(\<exists>ancs. ancestors k T x = Inr ancs) \<and> has_depth T x (?al x)" if "x \<in> set deps" for x
  proof -
    from below [OF that] obtain m where m: "lookup T m = Some x"
      and p: "(x, \<rho>) \<in> (parent_rel T)\<^sup>+" by auto
    from GoodD [OF G m] obtain d where d: "d < length (images T)" "has_depth T x d"
      by (auto simp: node_ok_def)
    from d(1) assms(5) have "d \<le> k" by simp
    from ancestors_below_root [OF assms(4) root p d(2) this] obtain xs where
      "ancestors k T x = Inr xs" "length xs = d" by auto
    with d(2) show ?thesis by (simp add: ancestors_length_def)
  qed
  define us where "us = los deps"
  have us: "distinct us" "set us = set deps" using assms(2) by (simp_all add: us_def)
  have keys: "sort_keys k T us = Inr (map ?al us)"
    by (rule sort_keys_total) (use anc us(2) in auto)
  define s where "s = filter (\<lambda>x. python_compat (heap T x)) (sort_key ?al us)"
  have res: "determine_rebuilds los k fs T edited = (Inr (map (\<lambda>x. name (heap T x)) s), T)"
    using deps keys
    by (simp add: determine_rebuilds_def us_def [symmetric] Let_def sort_key_zip s_def)
  have ds: "distinct s" using us(1) by (simp add: s_def)
  have ss: "set s = {x \<in> set deps. python_compat (heap T x)}"
    using us(2) by (auto simp: s_def)
  have sorted: "sorted (map ?al s)"
    unfolding s_def by (rule sorted_filter) (rule sorted_sort_key)
  have depth: "\<forall>x \<in> set s. has_depth T x (?al x)" using anc ss by auto
  have inj: "inj_on (\<lambda>x. name (heap T x)) (set s)"
  proof (rule inj_onI)
    fix x y assume xy: "x \<in> set s" "y \<in> set s" "name (heap T x) = name (heap T y)"
    from xy(1,2) ss below obtain mx my where m: "lookup T mx = Some x" "lookup T my = Some y"
      by blast
    from Good_name [OF G m(1)] Good_name [OF G m(2)] xy(3) m show "x = y" by simp
  qed
  have dn: "distinct (map (\<lambda>x. name (heap T x)) s)"
    using ds inj by (simp add: distinct_map)
  have order: "i < j" if ij: "i < length s" "j < length s" "(s ! i, s ! j) \<in> (child_rel T)\<^sup>+"
    for i j
  proof -
    from ij(1,2) have mem: "s ! i \<in> set s" "s ! j \<in> set s" by simp_all
    from mem(1) ss below obtain m where m: "lookup T m = Some (s ! i)" by blast
    from depth mem have di: "has_depth T (s ! i) (?al (s ! i))"
      and dj: "has_depth T (s ! j) (?al (s ! j))" by simp_all
    from Good_proper_descendant_depth [OF G ij(3) m di] obtain db where
      db: "?al (s ! i) < db" "has_depth T (s ! j) db" by auto
    from has_depth_fun [OF dj db(2)] db(1) have "?al (s ! i) < ?al (s ! j)" by simp
    from sorted_distinct_order [OF sorted ij(1,2) this] show ?thesis .
  qed
  show ?thesis
    using deps sd res ds ss sorted depth dn order
    unfolding s_def us_def by blast
qed

subsection \<open>Every order completes\<close>

lemma create_image_total:
  assumes G1: "Good fs T1"
  shows "lookup T1 n = Some x \<Longrightarrow> has_depth T1 x d \<Longrightarrow> d < k \<Longrightarrow>
         \<exists>r T'. create_image k fs T n = (Inr r, T')"
proof (induction k arbitrary: T n x d)
  case 0
  then show ?case by simp
next
  case (Suc k)
  define c where "c = nxt T"
  define Ta where "Ta = snd (new_Image T n)"
  have dp: "dirpath (heap Ta c) = Some n"
    by (simp add: Ta_def c_def new_Image_def Image_init_def)
  have "\<exists>T2. add_to_tree k fs Ta c = (Inr (), T2)"
  proof (cases "is_dir fs n")
    case False
    with dp show ?thesis by (simp add: add_to_tree.simps)
  next
    case True
    with GoodD [OF G1 Suc.prems(1)] obtain p rp pin where
      p: "decl fs (python_version T1) n = Inr (p, pin)" "lookup T1 p = Some rp"
        "parent (heap T1 x) = Some rp"
      by (auto simp: node_ok_def)
    from decl_version [OF p(1), of "python_version Ta"] obtain pin' where
      d': "decl fs (python_version Ta) n = Inr (p, pin')" by auto
    obtain Tb where parse: "parse_parent_from_dockerfile fs Ta c = (Inr p, Tb)"
      using parse_decl [OF dp, of fs] d' by simp
    from Suc.prems(2) p(3) obtain d0 where d0: "d = Suc d0" "has_depth T1 rp d0"
      by (cases d) auto
    have "\<exists>r Tc. get_image k fs Tb p True = (Inr r, Tc)"
    proof (cases "lookup Tb p")
      case None
      from Suc.IH [OF p(2) d0(2), of Tb] d0(1) Suc.prems(3) None show ?thesis
        by (simp add: get_image.simps)
    next
      case (Some r)
      then show ?thesis by (simp add: get_image.simps)
    qed
    then obtain r Tc where "get_image k fs Tb p True = (Inr r, Tc)" by auto
    then have "\<exists>T2. link_images k fs Tb (Inl p) (Inr c) = (Inr (), T2)"
      by (simp add: link_images.simps Let_def)
    with True dp parse show ?thesis by (simp add: add_to_tree.simps)
  qed
  then show ?case
    by (auto simp: create_image.simps Ta_def c_def new_Image_def)
qed

lemma create_tree_is_dir:
  "Good fs T \<Longrightarrow> create_tree k fs T ns = (Inr (), T') \<Longrightarrow> n \<in> set ns \<Longrightarrow> is_dir fs n"
proof (induction ns arbitrary: T)
  case Nil
  then show ?case by simp
next
  case (Cons m ns)
  from Cons.prems(2) show ?case
  proof (cases rule: create_tree_cases)
    case (nolookup e)
    then show ?thesis by simp
  next
    case (noadd r T1 e)
    then show ?thesis by simp
  next
    case (continue r T1 T2)
    from get_image_created [OF Cons.prems(1) continue(1)] have
      G1: "Good fs T1" and l: "lookup T1 m = Some r"
      by (simp_all add: created_def)
    from add_to_tree_registered [OF G1 l, of k] continue(2) have
      m: "is_dir fs m" and "T2 = T1"
      by (simp_all split: if_splits)
    with Cons.IH [of T1] G1 continue(3) Cons.prems(3) show ?thesis by auto
  qed
qed

lemma create_tree_total:
  assumes G1: "Good fs T1" and k: "length (images T1) \<le> k"
  shows "Good fs T \<Longrightarrow> (\<And>n. n \<in> set ns \<Longrightarrow> n \<in> dom (lookup T1) \<and> is_dir fs n) \<Longrightarrow>
         \<exists>T'. create_tree k fs T ns = (Inr (), T')"
proof (induction ns arbitrary: T)
  case Nil
  then show ?case by simp
next
  case (Cons n ns)
  from Cons.prems(2) [of n] obtain x where x: "lookup T1 n = Some x" and dir: "is_dir fs n"
    by auto
  have "\<exists>r Ta. get_image k fs T n True = (Inr r, Ta)"
  proof (cases "lookup T n")
    case None
    from GoodD [OF G1 x] obtain d where "d < length (images T1)" "has_depth T1 x d"
      by (auto simp: node_ok_def)
    with create_image_total [OF G1 x, of d k T] k None show ?thesis
      by (simp add: get_image.simps)
  next
    case (Some r)
    then show ?thesis by (simp add: get_image.simps)
  qed
  then obtain r Ta where g: "get_image k fs T n True = (Inr r, Ta)" by auto
  from get_image_created [OF Cons.prems(1) g] have
    Ga: "Good fs Ta" and l: "lookup Ta n = Some r"
    by (simp_all add: created_def)
  from add_to_tree_registered [OF Ga l, of k] dir have a: "add_to_tree k fs Ta r = (Inr (), Ta)"
    by simp
  from Cons.IH [OF Ga] Cons.prems(2) obtain T' where "create_tree k fs Ta ns = (Inr (), T')"
    by auto
  with g a show ?case by simp
qed

lemma constructed_any_order:
  assumes c: "ImageTree_init k1 fs ver ns1 = (Inr (), T1)" and s: "set ns2 = set ns1"
    and k: "length (images T1) \<le> k"
  shows "\<exists>T2. ImageTree_init k fs ver ns2 = (Inr (), T2)"
proof -
  note G1 = constructed_Good(1) [OF c]
  have dir: "is_dir fs n" if "n \<in> set ns1" for n
    using create_tree_is_dir [OF Good_empty, of k1 fs ver ns1 T1 n] c that
    by (simp add: ImageTree_init_def)
  have "n \<in> dom (lookup T1) \<and> is_dir fs n" if "n \<in> set ns2" for n
    using that s dir constructed_Good(3) [OF c] by auto
  from create_tree_total [OF G1 k Good_empty this, of ns2 ver] show ?thesis
    by (simp add: ImageTree_init_def)
qed

subsection \<open>The pieces of a reference\<close>

lemma split_no_colon: "c \<notin> set s \<Longrightarrow> split c s = [s]"
  by (induction s) auto

lemma split_length: "length (split c s) = Suc (count_list s c)"
  by (induction s) (auto split: list.split)

lemma split_first: "c \<notin> set a \<Longrightarrow> split c (a @ c # b) = a # split c b"
  by (induction a) auto

lemma split_image_tag_no_colon:
  "CHR '':'' \<notin> set s \<Longrightarrow> split_image_tag s = (s, None)"
  by (simp add: split_image_tag_def split_no_colon)

lemma split_image_tag_one_colon:
  "CHR '':'' \<notin> set a \<Longrightarrow> CHR '':'' \<notin> set b \<Longrightarrow>
     split_image_tag (a @ CHR '':'' # b) = (a, Some b)"
  by (simp add: split_image_tag_def split_first split_no_colon)

lemma split_image_tag_more_colons:
  assumes "2 \<le> count_list s (CHR '':'')"
  shows "split_image_tag s = (s, None)"
proof -
  from assms split_length [of "CHR '':''" s] have "3 \<le> length (split (CHR '':'') s)" by simp
  then show ?thesis
    by (auto simp: split_image_tag_def split: list.splits)
qed

text \<open>
  Claim C9. Take a construction that completed. A construction from the same files and
  version token that finds the same set of definition files, in any other order and with
  any repetitions, completes as well when it is given as many nested calls as the first
  tree has images; and whenever it completes, it ends with the same names in the
  dictionary, the same parent name for every name and the same set of child names for
  every name. Running the loop body once more for a name that is already in the tree
  leaves the whole tree as it is.
\<close>

theorem construction_order_independent:
  assumes "ImageTree_init k1 fs ver ns1 = (Inr (), T1)" and "set ns2 = set ns1"
  shows "(\<forall>k \<ge> length (images T1). \<exists>T2. ImageTree_init k fs ver ns2 = (Inr (), T2)) \<and>
         (\<forall>k T2. ImageTree_init k fs ver ns2 = (Inr (), T2) \<longrightarrow>
            dom (map_of (images T2)) = dom (map_of (images T1)) \<and>
            parent_of T2 = parent_of T1 \<and> children_of T2 = children_of T1) \<and>
         (\<forall>n \<in> dom (map_of (images T1)). \<forall>k. snd (create_tree k fs T1 [n]) = T1)"
proof (intro conjI allI impI ballI)
  fix k assume "length (images T1) \<le> k"
  with assms show "\<exists>T2. ImageTree_init k fs ver ns2 = (Inr (), T2)"
    by (rule constructed_any_order)
next
  fix k T2 assume c2: "ImageTree_init k fs ver ns2 = (Inr (), T2)"
  note c1 = constructed_Good [OF assms(1)] and c2 = constructed_Good [OF c2]
  show d: "dom (lookup T2) = dom (lookup T1)" using c1(3) c2(3) assms(2) by simp
  show "parent_of T2 = parent_of T1"
    using Good_parent_of [OF c1(1)] Good_parent_of [OF c2(1)] d by (simp add: fun_eq_iff)
  show "children_of T2 = children_of T1"
    using Good_children_of [OF c1(1)] Good_children_of [OF c2(1)] d by (simp add: fun_eq_iff)
next
  fix n k assume "n \<in> dom (lookup T1)"
  with constructed_Good(1) [OF assms(1)] show "snd (create_tree k fs T1 [n]) = T1"
    by (rule register_again)
qed

subsection \<open>Examples\<close>

lemma decl_ex:
  "decl fs_ex (Some ''3.8'') ''mid'' = Inr (''base'', False)"
  "decl fs_ex (Some ''3.9'') ''mid'' = Inr (''base'', True)"
  "decl fs_ex v ''leaf'' = Inr (''mid'', False)"
  by (simp_all add: decl_def fs_ex_def read_dockerfile_def parent_reference_def
      split_image_tag_def isdigit_def)

lemma is_dir_ex:
  "is_dir fs_ex ''mid''" "is_dir fs_ex ''leaf''" "\<not> is_dir fs_ex ''base''"
  "\<not> is_dir fs_ex ''b''" "\<not> is_dir fs_ex ''c''"
  by (simp_all add: is_dir_def fs_ex_def)

lemma decl_two:
  "decl fs_two v ''a'' = Inr (''x'', False)" "decl fs_two v ''b'' = Inr (''y'', False)"
  by (simp_all add: decl_def fs_two_def read_dockerfile_def parent_reference_def
      split_image_tag_def)

lemma is_dir_two:
  "is_dir fs_two ''a''" "is_dir fs_two ''b''" "\<not> is_dir fs_two ''x''" "\<not> is_dir fs_two ''y''"
  by (simp_all add: is_dir_def fs_two_def)

lemmas run_simps = ImageTree_init_def ImageTree_empty_def numeral_3_eq_3 numeral_2_eq_2
  get_image.simps create_image.simps add_to_tree.simps link_images.simps
  new_Image_def Image_init_def parse_decl decl_ex is_dir_ex
  upd_def add_child_def add_parent_def fun_eq_iff

lemma ex_constructed:
  "ImageTree_init 3 fs_ex (Some ''3.8'') [''leaf'', ''mid''] = (Inr (), T_ex (Some ''3.8'') True)"
  by (simp add: run_simps T_ex_def)

lemma two_constructed: "ImageTree_init 2 fs_two None [''a'', ''b''] = (Inr (), T_two)"
  by (simp add: run_simps decl_two is_dir_two T_two_def)

lemma ex_constructed_pinned:
  "ImageTree_init 3 fs_ex (Some ''3.9'') [''leaf'', ''mid''] = (Inr (), T_ex (Some ''3.9'') False)"
  by (simp add: run_simps T_ex_def)

lemma ex_constructed':
  "ImageTree_init 3 fs_ex (Some ''3.8'') [''mid'', ''leaf''] = (Inr (), T_ex')"
  by (simp add: run_simps T_ex'_def)

text \<open>
  Two direct calls of \<open>link_images\<close>, the second putting an incompatible parent above an
  image that already has a child: the image becomes incompatible and its child stays
  compatible.
\<close>

theorem link_out_of_order_counterexample:
  "map_of (images T_linked) ''b'' = Some 0 \<and> 1 \<in> set (children (heap T_linked 0)) \<and>
   \<not> python_compat (heap T_linked 0) \<and> python_compat (heap T_linked 1)"
  by (simp add: T_linked_def run_simps)

theorem incompatible_descendants_witness:
  "reachable fs_ex (Some ''3.9'') (T_ex (Some ''3.9'') False) \<and>
   map_of (images (T_ex (Some ''3.9'') False)) ''mid'' = Some 1 \<and>
   \<not> python_compat (heap (T_ex (Some ''3.9'') False) 1) \<and>
   (1, 0) \<in> (child_rel (T_ex (Some ''3.9'') False))\<^sup>* \<and>
   \<not> python_compat (heap (T_ex (Some ''3.9'') False) 0)"
proof -
  let ?T = "T_ex (Some ''3.9'') False"
  have r: "reachable fs_ex (Some ''3.9'') ?T"
    using constructed_reachable [of fs_ex "Some ''3.9''" 3 "[''leaf'', ''mid'']"]
    by (simp add: ex_constructed_pinned)
  have l: "map_of (images ?T) ''mid'' = Some 1" by (simp add: T_ex_def)
  have c: "\<not> python_compat (heap ?T 1)" by (simp add: T_ex_def)
  have d: "(1, 0) \<in> (child_rel ?T)\<^sup>*"
    by (rule r_into_rtrancl) (simp add: child_rel_def T_ex_def)
  from incompatible_descendants [OF r l c] d r l c show ?thesis by blast
qed

theorem construction_order_independent_witness:
  "ImageTree_init 3 fs_ex (Some ''3.8'') [''leaf'', ''mid''] = (Inr (), T_ex (Some ''3.8'') True) \<and>
   set [''mid'', ''leaf''] = set [''leaf'', ''mid''] \<and>
   ImageTree_init 3 fs_ex (Some ''3.8'') [''mid'', ''leaf''] = (Inr (), T_ex') \<and>
   dom (map_of (images T_ex')) = dom (map_of (images (T_ex (Some ''3.8'') True))) \<and>
   parent_of T_ex' = parent_of (T_ex (Some ''3.8'') True) \<and>
   children_of T_ex' = children_of (T_ex (Some ''3.8'') True)"
proof -
  have s: "set [''mid'', ''leaf''] = set [''leaf'', ''mid'']" by auto
  from construction_order_independent [OF ex_constructed s]
    ex_constructed ex_constructed' s
  show ?thesis by blast
qed

theorem malformed_definition_fatal_witness:
  "fs_ex ''bad'' = Dir (Some [''RUN make'']) \<and> malformed [''RUN make''] \<and>
   create_image (Suc 0) fs_ex (ImageTree_empty None) ''bad'' =
     (Inl StopIteration, snd (new_Image (ImageTree_empty None) ''bad'')) \<and>
   (\<exists>e T. ImageTree_init 3 fs_ex None [''leaf'', ''bad''] = (Inl e, T))"
proof -
  have f: "fs_ex ''bad'' = Dir (Some [''RUN make''])" by (simp add: fs_ex_def)
  have m: "malformed [''RUN make'']" by (simp add: malformed_def)
  from malformed_definition_fatal [of fs_ex "''bad''" "[''RUN make'']", OF f m] f m
  show ?thesis by simp
qed

theorem ancestors_undefined_on_root_witness:
  "root_image (T_ex None True) = Some 2 \<and> parent (heap (T_ex None True) 2) = None \<and>
   ancestors (Suc 0) (T_ex None True) 2 = Inl AttributeError"
proof -
  have r: "root_image (T_ex None True) = Some 2" by (simp add: T_ex_def)
  have p: "parent (heap (T_ex None True) 2) = None" by (simp add: T_ex_def)
  from ancestors_undefined_on_root [OF r p, of 0] r p show ?thesis by blast
qed

theorem python_compat_monotone_witness:
  "1 < nxt (T_ex None False) \<and> \<not> python_compat (heap (T_ex None False) 1) \<and>
   \<not> python_compat (heap (snd (create_tree 3 fs_ex (T_ex None False) [''leaf''])) 1) \<and>
   \<not> python_compat (heap (snd (link_images 3 fs_ex (T_ex None False) (Inl ''base'') (Inr 1))) 1)"
proof -
  have n: "1 < nxt (T_ex None False)" by (simp add: T_ex_def)
  have c: "\<not> python_compat (heap (T_ex None False) 1)" by (simp add: T_ex_def)
  from python_compat_monotone [OF n c, of _ fs_ex _ 3 "Inl ''base''" "Inr 1" _ "[''leaf'']"] n c
  show ?thesis by blast
qed

theorem get_image_found_or_not_found_witness:
  "get_image 0 fs_ex (T_ex None True) ''mid'' False = (Inr 1, T_ex None True) \<and>
   map_of (images (T_ex None True)) ''nope'' = None \<and>
   get_image 0 fs_ex (T_ex None True) ''nope'' False =
     (Inl (ValueError ''No Image named nope in:base, mid, leaf''), T_ex None True) \<and>
   ''leaf'' \<in> fst ` set (images (T_ex None True)) \<and>
   (\<exists>a b. ''No Image named nope in:base, mid, leaf'' = a @ ''leaf'' @ b)"
proof -
  have i: "images (T_ex None True) = [(''base'', 2), (''mid'', 1), (''leaf'', 0)]"
    by (simp add: T_ex_def)
  have 1: "get_image 0 fs_ex (T_ex None True) ''mid'' False = (Inr 1, T_ex None True)"
    using get_image_found_or_not_found [of 0 fs_ex "T_ex None True" "''mid''"] by (simp add: i)
  have 2: "map_of (images (T_ex None True)) ''nope'' = None" by (simp add: i)
  have 3: "get_image 0 fs_ex (T_ex None True) ''nope'' False =
     (Inl (ValueError ''No Image named nope in:base, mid, leaf''), T_ex None True)"
    using get_image_found_or_not_found [of 0 fs_ex "T_ex None True" "''nope''"] by (simp add: i)
  have 4: "''leaf'' \<in> fst ` set (images (T_ex None True))" by (simp add: i)
  from get_image_found_or_not_found [of 0 fs_ex "T_ex None True" "''nope''"] 2 4
  have "\<exists>msg a b. get_image 0 fs_ex (T_ex None True) ''nope'' False =
          (Inl (ValueError msg), T_ex None True) \<and> msg = a @ ''leaf'' @ b"
    by blast
  with 3 have 5: "\<exists>a b. ''No Image named nope in:base, mid, leaf'' = a @ ''leaf'' @ b"
    by auto
  from 1 2 3 4 5 show ?thesis by blast
qed

text \<open>
  Claim C4 at a reference with two colons, a tag followed by a digest: the unpacking
  fails, the handler takes the whole reference as the image name and no tag, and the
  pinned tag \<open>3.7\<close> is not compared with the version token \<open>3.8\<close>.
\<close>

theorem split_image_tag_two_colons:
  "parent_reference [''FROM contextlab/base:3.7@sha256:ab''] = Inr ''base:3.7@sha256:ab'' \<and>
   split_image_tag ''base:3.7@sha256:ab'' = (''base:3.7@sha256:ab'', None) \<and>
   decl (\<lambda>_. Dir (Some [''FROM contextlab/base:3.7@sha256:ab''])) (Some ''3.8'') ''img'' =
     Inr (''base:3.7@sha256:ab'', False)"
  by (simp add: parent_reference_def split_image_tag_def decl_def read_dockerfile_def)

text \<open>
  Claim C2 at a reference with a tag followed by a digest. The piece after the first
  colon starts with the digit \<open>3\<close> and is not the version token \<open>3.8\<close>, the new object
  of \<open>img\<close> has the flag true, and the parse returns with the tree as it was: the flag is
  still true. At the same reference without the digest the parse sets the flag to
  false.
\<close>

theorem parse_two_colons_keeps_flag:
  "split CHR '':'' ''base:3.7@sha256:ab'' = [''base'', ''3.7@sha256'', ''ab''] \<and>
   isdigit CHR ''3'' \<and>
   python_compat (heap (snd (new_Image (ImageTree_empty (Some ''3.8'')) ''img'')) 0) \<and>
   parse_parent_from_dockerfile (\<lambda>_. Dir (Some [''FROM contextlab/base:3.7@sha256:ab'']))
       (snd (new_Image (ImageTree_empty (Some ''3.8'')) ''img'')) 0 =
     (Inr ''base:3.7@sha256:ab'', snd (new_Image (ImageTree_empty (Some ''3.8'')) ''img'')) \<and>
   parse_parent_from_dockerfile (\<lambda>_. Dir (Some [''FROM contextlab/base:3.7'']))
       (snd (new_Image (ImageTree_empty (Some ''3.8'')) ''img'')) 0 =
     (Inr ''base'', upd (snd (new_Image (ImageTree_empty (Some ''3.8'')) ''img'')) 0
                      (\<lambda>i. i\<lparr>python_compat := False\<rparr>))"
  by (simp add: parse_parent_from_dockerfile_def parent_reference_def split_image_tag_def
      read_dockerfile_def new_Image_def ImageTree_empty_def Image_init_def isdigit_def upd_def)

lemma ex_below_root:
  "(1, 2) \<in> (parent_rel (T_ex v b))\<^sup>+" "(0, 2) \<in> (parent_rel (T_ex v b))\<^sup>+"
proof -
  have 1: "(1, 2) \<in> parent_rel (T_ex v b)" and 0: "(0, 1) \<in> parent_rel (T_ex v b)"
    by (simp_all add: parent_rel_def T_ex_def)
  from 1 show "(1, 2) \<in> (parent_rel (T_ex v b))\<^sup>+" by (rule r_into_trancl)
  from 0 1 show "(0, 2) \<in> (parent_rel (T_ex v b))\<^sup>+" by (rule trancl_into_trancl2 [OF _ r_into_trancl])
qed

text \<open>
  In the tree constructed from \<open>leaf\<close> and \<open>mid\<close>, the root image \<open>base\<close> is a node of
  the tree and \<open>ancestors\<close> raises on it. In the tree constructed from \<open>a\<close> and \<open>b\<close>,
  which have different external bases, \<open>ancestors\<close> raises on \<open>a\<close>, which has a parent:
  the chain of \<open>a\<close> ends at the base \<open>x\<close>, and the root image is \<open>y\<close>.
\<close>

theorem ancestors_root_counterexample:
  "ImageTree_init 3 fs_ex (Some ''3.8'') [''leaf'', ''mid''] = (Inr (), T_ex (Some ''3.8'') True) \<and>
   map_of (images (T_ex (Some ''3.8'') True)) ''base'' = Some 2 \<and>
   ancestors 3 (T_ex (Some ''3.8'') True) 2 = Inl AttributeError \<and>
   ImageTree_init 2 fs_two None [''a'', ''b''] = (Inr (), T_two) \<and>
   map_of (images T_two) ''a'' = Some 0 \<and> parent (heap T_two 0) = Some 1 \<and>
   ancestors 4 T_two 0 = Inl AttributeError"
  by (simp add: ex_constructed two_constructed)
     (simp add: T_ex_def T_two_def numeral_3_eq_3 eval_nat_numeral)

theorem ancestors_chain_witness:
  "ImageTree_init 3 fs_ex (Some ''3.8'') [''leaf'', ''mid''] = (Inr (), T_ex (Some ''3.8'') True) \<and>
   map_of (images (T_ex (Some ''3.8'') True)) ''leaf'' = Some 0 \<and>
   root_image (T_ex (Some ''3.8'') True) = Some 2 \<and>
   (0, 2) \<in> (parent_rel (T_ex (Some ''3.8'') True))\<^sup>+ \<and>
   length (images (T_ex (Some ''3.8'') True)) \<le> 3 \<and>
   (\<exists>xs. ancestors 3 (T_ex (Some ''3.8'') True) 0 = Inr xs \<and> xs \<noteq> [] \<and> last xs = 0 \<and>
         has_depth (T_ex (Some ''3.8'') True) 0 (length xs))"
proof -
  let ?T = "T_ex (Some ''3.8'') True"
  have l: "map_of (images ?T) ''leaf'' = Some 0" by (simp add: T_ex_def)
  have r: "root_image ?T = Some 2" by (simp add: T_ex_def)
  have k: "length (images ?T) \<le> 3" by (simp add: T_ex_def)
  from ancestors_chain [OF ex_constructed l r ex_below_root(2) k]
    ex_constructed l r ex_below_root(2) [of "Some ''3.8''" True] k
  show ?thesis by blast
qed

text \<open>
  In the same trees the names \<open>base\<close> and \<open>a\<close> are in the dictionary, and editing either
  makes \<open>determine_rebuilds\<close> raise.
\<close>

theorem determine_rebuilds_root_counterexample:
  "ImageTree_init 3 fs_ex (Some ''3.8'') [''leaf'', ''mid''] = (Inr (), T_ex (Some ''3.8'') True) \<and>
   map_of (images (T_ex (Some ''3.8'') True)) ''base'' = Some 2 \<and>
   determine_rebuilds remdups 3 fs_ex (T_ex (Some ''3.8'') True) [''base''] =
     (Inl AttributeError, T_ex (Some ''3.8'') True) \<and>
   ImageTree_init 2 fs_two None [''a'', ''b''] = (Inr (), T_two) \<and>
   map_of (images T_two) ''a'' = Some 0 \<and>
   determine_rebuilds remdups 4 fs_two T_two [''a''] = (Inl AttributeError, T_two)"
  by (simp add: ex_constructed two_constructed)
     (simp add: T_ex_def T_two_def numeral_3_eq_3 eval_nat_numeral determine_rebuilds_def
        get_image.simps)

theorem determine_rebuilds_sorted_descendants_witness:
  "ImageTree_init 3 fs_ex (Some ''3.8'') [''leaf'', ''mid''] = (Inr (), T_ex (Some ''3.8'') True) \<and>
   (\<forall>xs :: ref list. distinct (remdups xs) \<and> set (remdups xs) = set xs) \<and>
   map_of (images (T_ex (Some ''3.8'') True)) ''mid'' = Some 1 \<and>
   (1, 2) \<in> (parent_rel (T_ex (Some ''3.8'') True))\<^sup>+ \<and>
   root_image (T_ex (Some ''3.8'') True) = Some 2 \<and>
   length (images (T_ex (Some ''3.8'') True)) \<le> 3 \<and>
   (\<exists>s. determine_rebuilds remdups 3 fs_ex (T_ex (Some ''3.8'') True) [''mid''] =
           (Inr (map (\<lambda>x. name (heap (T_ex (Some ''3.8'') True) x)) s), T_ex (Some ''3.8'') True) \<and>
        distinct s \<and> sorted (map (ancestors_length 3 (T_ex (Some ''3.8'') True)) s))"
proof -
  let ?T = "T_ex (Some ''3.8'') True"
  have los: "\<forall>xs :: ref list. distinct (remdups xs) \<and> set (remdups xs) = set xs" by simp
  have l: "map_of (images ?T) ''mid'' = Some 1" by (simp add: T_ex_def)
  have e: "\<forall>n \<in> set [''mid'']. \<exists>r. map_of (images ?T) n = Some r \<and> (r, 2) \<in> (parent_rel ?T)\<^sup>+"
    using l ex_below_root(1) [of "Some ''3.8''" True] by simp
  have r: "root_image ?T = Some 2" by (simp add: T_ex_def)
  have k: "length (images ?T) \<le> 3" by (simp add: T_ex_def)
  from determine_rebuilds_sorted_descendants [OF ex_constructed los e r k]
  obtain s where "determine_rebuilds remdups 3 fs_ex ?T [''mid''] =
           (Inr (map (\<lambda>x. name (heap ?T x)) s), ?T)" "distinct s"
      "sorted (map (ancestors_length 3 ?T) s)"
    by blast
  with ex_constructed los l ex_below_root(1) [of "Some ''3.8''" True] r k
  show ?thesis by blast
qed

lemma ex_rebuild_mid:
  "determine_rebuilds remdups 3 fs_ex (T_ex (Some ''3.8'') True) [''mid''] =
     (Inr [''mid'', ''leaf''], T_ex (Some ''3.8'') True)"
  by (simp add: T_ex_def numeral_3_eq_3 determine_rebuilds_def get_image.simps)

end
